theory Spec2Isabelle
  imports Main "HOL-Library.Word"
begin

unbundle bit_operations_syntax

section \<open>The AnonVerse contract (contracts/AnonVerse.sol)\<close>

subsection \<open>Data\<close>

text \<open>
  An \<open>address\<close> is a 160-bit word. A \<open>uint256\<close> is a natural number; the contract is
  compiled with Solidity 0.8, where \<open>+=\<close> is checked, so every increment of a counter is
  written with its overflow test (\<open>checked_add\<close>, \<open>Panic 0x11\<close>).
\<close>

type_synonym address = "160 word"

text \<open>
  Modelled from the spec: the FHE library (\<open>FHE.randEuint32\<close>, \<open>FHE.rem\<close>, \<open>FHE.allow\<close>,
  \<open>FHE.allowThis\<close>) is an imported dependency whose code is not part of the repository.
  An \<open>euint32\<close> is an opaque handle together with the 32-bit value it encrypts; the
  handle is what the contract stores and what the access-control list is keyed by. The
  value is never read by the contract.
\<close>

record euint32 =
  handle :: nat
  plain :: "32 word"

record GroupMetadata =
  name :: string
  creator :: address
  secret :: euint32
  createdAt :: nat
  memberCount :: nat
  messageCount :: nat

record Message =
  sender :: address
  cipherText :: string
  timestamp :: nat

datatype event =
    GroupCreated nat address string euint32
  | MemberJoined nat address
  | MessagePosted nat address string nat

text \<open>
  The storage of the contract: the four state variables of the source, the address of the
  contract itself (\<open>address(this)\<close>, fixed at deployment), the access-control list of the
  FHE coprocessor (handle to set of addresses) and the log of emitted events.
\<close>

record anonverse =
  groups :: "GroupMetadata list"
  groupMembers :: "nat \<Rightarrow> address \<Rightarrow> bool"
  memberLists :: "nat \<Rightarrow> address list"
  groupMessages :: "nat \<Rightarrow> Message list"
  thisAddress :: address
  acl :: "nat \<Rightarrow> address set"
  events :: "event list"

text \<open>
  What a transaction brings from outside: \<open>msg.sender\<close>, \<open>block.timestamp\<close>, the value
  drawn by \<open>FHE.randEuint32()\<close> and the handles the coprocessor gives to the random value
  and to its remainder.
\<close>

record env =
  msg_sender :: address
  block_timestamp :: nat
  rand_draw :: "32 word"
  rand_handle :: nat
  rem_handle :: nat

text \<open>
  A failed \<open>require\<close> reverts with its message; a failed checked operation panics with a
  code. The names of the specification's error taxonomy stand for the revert messages of
  the source.
\<close>

datatype error = Revert string | Panic nat

abbreviation NotFound :: error where
  "NotFound \<equiv> Revert ''Invalid group''"

abbreviation AlreadyMember :: error where
  "AlreadyMember \<equiv> Revert ''Already joined''"

abbreviation Forbidden :: error where
  "Forbidden \<equiv> Revert ''Join first''"

abbreviation InvalidArgument_name :: error where
  "InvalidArgument_name \<equiv> Revert ''Group name required''"

abbreviation InvalidArgument_message :: error where
  "InvalidArgument_message \<equiv> Revert ''Message required''"

abbreviation IndexOutOfRange :: error where
  "IndexOutOfRange \<equiv> Revert ''Invalid message index''"

definition max_uint256 :: nat where
  "max_uint256 = 2 ^ 256 - 1"

definition checked_add :: "nat \<Rightarrow> nat \<Rightarrow> error + nat" where
  "checked_add a b = (if a + b \<le> max_uint256 then Inr (a + b) else Inl (Panic 0x11))"

subsection \<open>The FHE primitives\<close>

text \<open>
  Modelled from the spec: \<open>mintBoundedSecret\<close> is a random draw followed by a modulus
  reduction inside the confidential domain, and \<open>grantAccess\<close> adds an identity to the
  access-control list of the secret, idempotently; there is no revocation.
\<close>

definition FHE_randEuint32 :: "env \<Rightarrow> euint32" where
  "FHE_randEuint32 e = \<lparr>handle = rand_handle e, plain = rand_draw e\<rparr>"

definition FHE_rem :: "env \<Rightarrow> euint32 \<Rightarrow> 32 word \<Rightarrow> euint32" where
  "FHE_rem e a b = \<lparr>handle = rem_handle e, plain = plain a mod b\<rparr>"

definition FHE_allow :: "euint32 \<Rightarrow> address \<Rightarrow> anonverse \<Rightarrow> anonverse" where
  "FHE_allow v a s = s\<lparr>acl := (acl s)(handle v := insert a (acl s (handle v)))\<rparr>"

definition FHE_allowThis :: "euint32 \<Rightarrow> anonverse \<Rightarrow> anonverse" where
  "FHE_allowThis v s = FHE_allow v (thisAddress s) s"

definition emit :: "event \<Rightarrow> anonverse \<Rightarrow> anonverse" where
  "emit ev s = s\<lparr>events := events s @ [ev]\<rparr>"

subsection \<open>The state-changing functions\<close>

definition validGroup :: "anonverse \<Rightarrow> nat \<Rightarrow> bool" where
  "validGroup s groupId \<longleftrightarrow> groupId < length (groups s)"

definition createGroup :: "env \<Rightarrow> string \<Rightarrow> anonverse \<Rightarrow> error + ((nat \<times> euint32) \<times> anonverse)" where
  "createGroup e nm s =
     (if \<not> length nm > 0 then Inl (Revert ''Group name required'')
      else
        let sec = FHE_rem e (FHE_randEuint32 e) 1000000;
            groupId = length (groups s);
            s1 = s\<lparr>groups := groups s @
                   [\<lparr>name = nm, creator = msg_sender e, secret = sec,
                     createdAt = block_timestamp e, memberCount = 1, messageCount = 0\<rparr>]\<rparr>;
            s2 = s1\<lparr>groupMembers :=
                   (groupMembers s1)(groupId := (groupMembers s1 groupId)(msg_sender e := True))\<rparr>;
            s3 = s2\<lparr>memberLists :=
                   (memberLists s2)(groupId := memberLists s2 groupId @ [msg_sender e])\<rparr>;
            s4 = FHE_allow sec (msg_sender e) s3;
            s5 = FHE_allowThis sec s4;
            s6 = emit (GroupCreated groupId (msg_sender e) nm sec) s5
        in Inr ((groupId, sec), s6))"

definition joinGroup :: "env \<Rightarrow> nat \<Rightarrow> anonverse \<Rightarrow> error + anonverse" where
  "joinGroup e groupId s =
     (if \<not> validGroup s groupId then Inl (Revert ''Invalid group'')
      else if \<not> (\<not> groupMembers s groupId (msg_sender e)) then Inl (Revert ''Already joined'')
      else
        let s1 = s\<lparr>groupMembers :=
                   (groupMembers s)(groupId := (groupMembers s groupId)(msg_sender e := True))\<rparr>;
            s2 = s1\<lparr>memberLists :=
                   (memberLists s1)(groupId := memberLists s1 groupId @ [msg_sender e])\<rparr>
        in case checked_add (memberCount (groups s2 ! groupId)) 1 of
             Inl err \<Rightarrow> Inl err
           | Inr n \<Rightarrow>
               let s3 = s2\<lparr>groups := (groups s2)[groupId := (groups s2 ! groupId)\<lparr>memberCount := n\<rparr>]\<rparr>;
                   s4 = FHE_allow (secret (groups s3 ! groupId)) (msg_sender e) s3;
                   s5 = emit (MemberJoined groupId (msg_sender e)) s4
               in Inr s5)"

definition postMessage :: "env \<Rightarrow> nat \<Rightarrow> string \<Rightarrow> anonverse \<Rightarrow> error + anonverse" where
  "postMessage e groupId ct s =
     (if \<not> validGroup s groupId then Inl (Revert ''Invalid group'')
      else if \<not> groupMembers s groupId (msg_sender e) then Inl (Revert ''Join first'')
      else if \<not> length ct > 0 then Inl (Revert ''Message required'')
      else
        let s1 = s\<lparr>groupMessages :=
                   (groupMessages s)(groupId := groupMessages s groupId @
                      [\<lparr>sender = msg_sender e, cipherText = ct, timestamp = block_timestamp e\<rparr>])\<rparr>
        in case checked_add (messageCount (groups s1 ! groupId)) 1 of
             Inl err \<Rightarrow> Inl err
           | Inr n \<Rightarrow>
               let s2 = s1\<lparr>groups := (groups s1)[groupId := (groups s1 ! groupId)\<lparr>messageCount := n\<rparr>]\<rparr>;
                   s3 = emit (MessagePosted groupId (msg_sender e) ct (block_timestamp e)) s2
               in Inr s3)"

subsection \<open>The view functions\<close>

definition getGroup ::
  "anonverse \<Rightarrow> nat \<Rightarrow> error + (string \<times> address \<times> nat \<times> nat \<times> nat \<times> euint32)" where
  "getGroup s groupId =
     (if \<not> validGroup s groupId then Inl (Revert ''Invalid group'')
      else let g = groups s ! groupId
           in Inr (name g, creator g, createdAt g, memberCount g, messageCount g, secret g))"

definition getGroupCount :: "anonverse \<Rightarrow> nat" where
  "getGroupCount s = length (groups s)"

definition getGroupSecret :: "anonverse \<Rightarrow> nat \<Rightarrow> error + euint32" where
  "getGroupSecret s groupId =
     (if \<not> validGroup s groupId then Inl (Revert ''Invalid group'')
      else Inr (secret (groups s ! groupId)))"

definition listMembers :: "anonverse \<Rightarrow> nat \<Rightarrow> error + address list" where
  "listMembers s groupId =
     (if \<not> validGroup s groupId then Inl (Revert ''Invalid group'')
      else Inr (memberLists s groupId))"

definition isMember :: "anonverse \<Rightarrow> nat \<Rightarrow> address \<Rightarrow> error + bool" where
  "isMember s groupId account =
     (if \<not> validGroup s groupId then Inl (Revert ''Invalid group'')
      else Inr (groupMembers s groupId account))"

definition getMessageCount :: "anonverse \<Rightarrow> nat \<Rightarrow> error + nat" where
  "getMessageCount s groupId =
     (if \<not> validGroup s groupId then Inl (Revert ''Invalid group'')
      else Inr (length (groupMessages s groupId)))"

definition getMessage :: "anonverse \<Rightarrow> nat \<Rightarrow> nat \<Rightarrow> error + Message" where
  "getMessage s groupId index =
     (if \<not> validGroup s groupId then Inl (Revert ''Invalid group'')
      else if \<not> index < length (groupMessages s groupId) then Inl (Revert ''Invalid message index'')
      else Inr (groupMessages s groupId ! index))"

subsection \<open>Transactions\<close>

text \<open>
  A call to the contract is one of its ten external functions. A call that reverts or
  panics leaves the storage as it was before the call (the EVM discards every write of a
  reverted call); a call that returns commits the storage it computed.
\<close>

datatype call =
    CreateGroup string
  | JoinGroup nat
  | PostMessage nat string
  | GetGroup nat
  | GetGroupCount
  | GetGroupSecret nat
  | ListMembers nat
  | IsMember nat address
  | GetMessageCount nat
  | GetMessage nat nat

datatype retval =
    RCreated nat euint32
  | RNone
  | RGroup string address nat nat nat euint32
  | RCount nat
  | RSecret euint32
  | RMembers "address list"
  | RBool bool
  | RMessage Message

definition view_result :: "('a \<Rightarrow> retval) \<Rightarrow> anonverse \<Rightarrow> error + 'a \<Rightarrow> error + (retval \<times> anonverse)" where
  "view_result f s r = (case r of Inl err \<Rightarrow> Inl err | Inr v \<Rightarrow> Inr (f v, s))"

fun dispatch :: "env \<Rightarrow> call \<Rightarrow> anonverse \<Rightarrow> error + (retval \<times> anonverse)" where
  "dispatch e (CreateGroup nm) s =
     (case createGroup e nm s of Inl err \<Rightarrow> Inl err | Inr ((g, k), s') \<Rightarrow> Inr (RCreated g k, s'))"
| "dispatch e (JoinGroup g) s =
     (case joinGroup e g s of Inl err \<Rightarrow> Inl err | Inr s' \<Rightarrow> Inr (RNone, s'))"
| "dispatch e (PostMessage g ct) s =
     (case postMessage e g ct s of Inl err \<Rightarrow> Inl err | Inr s' \<Rightarrow> Inr (RNone, s'))"
| "dispatch e (GetGroup g) s =
     view_result (\<lambda>(n, c, t, mc, msgc, k). RGroup n c t mc msgc k) s (getGroup s g)"
| "dispatch e GetGroupCount s = Inr (RCount (getGroupCount s), s)"
| "dispatch e (GetGroupSecret g) s = view_result RSecret s (getGroupSecret s g)"
| "dispatch e (ListMembers g) s = view_result RMembers s (listMembers s g)"
| "dispatch e (IsMember g a) s = view_result RBool s (isMember s g a)"
| "dispatch e (GetMessageCount g) s = view_result RCount s (getMessageCount s g)"
| "dispatch e (GetMessage g i) s = view_result RMessage s (getMessage s g i)"

definition transact :: "env \<Rightarrow> call \<Rightarrow> anonverse \<Rightarrow> (error + retval) \<times> anonverse" where
  "transact e c s =
     (case dispatch e c s of Inl err \<Rightarrow> (Inl err, s) | Inr (r, s') \<Rightarrow> (Inr r, s'))"

definition deploy :: "address \<Rightarrow> anonverse" where
  "deploy self =
     \<lparr>groups = [], groupMembers = (\<lambda>_ _. False), memberLists = (\<lambda>_. []),
      groupMessages = (\<lambda>_. []), thisAddress = self, acl = (\<lambda>_. {}), events = []\<rparr>"

text \<open>
  Running a sequence of transactions from a state: the results in order, and the final
  state.
\<close>

fun run :: "(env \<times> call) list \<Rightarrow> anonverse \<Rightarrow> (error + retval) list \<times> anonverse" where
  "run [] s = ([], s)"
| "run ((e, c) # tr) s =
     (let (r, s') = transact e c s; (rs, s'') = run tr s' in (r # rs, s''))"

inductive reachable :: "anonverse \<Rightarrow> bool" where
  reachable_deploy: "reachable (deploy self)"
| reachable_step: "reachable s \<Longrightarrow> reachable (snd (transact e c s))"

subsection \<open>Consistency of the storage\<close>

text \<open>
  What holds of a group that exists, and of an index at which no group has been created.
\<close>

definition group_ok :: "anonverse \<Rightarrow> nat \<Rightarrow> bool" where
  "group_ok s g \<longleftrightarrow>
     memberCount (groups s ! g) = length (memberLists s g) \<and>
     distinct (memberLists s g) \<and>
     memberLists s g \<noteq> [] \<and>
     hd (memberLists s g) = creator (groups s ! g) \<and>
     (\<forall>a. a \<in> set (memberLists s g) \<longleftrightarrow> groupMembers s g a) \<and>
     messageCount (groups s ! g) = length (groupMessages s g) \<and>
     (\<forall>a. groupMembers s g a \<longrightarrow> a \<in> acl s (handle (secret (groups s ! g)))) \<and>
     thisAddress s \<in> acl s (handle (secret (groups s ! g)))"

definition unused :: "anonverse \<Rightarrow> nat \<Rightarrow> bool" where
  "unused s g \<longleftrightarrow>
     memberLists s g = [] \<and> (\<forall>a. \<not> groupMembers s g a) \<and> groupMessages s g = []"

definition consistent :: "anonverse \<Rightarrow> bool" where
  "consistent s \<longleftrightarrow> (\<forall>g. if g < length (groups s) then group_ok s g else unused s g)"


subsection \<open>Observations on a run\<close>

text \<open>The group ids returned by the successful \<open>createGroup\<close> calls of a run, in order.\<close>

fun created_ids :: "(error + retval) list \<Rightarrow> nat list" where
  "created_ids [] = []"
| "created_ids (Inr (RCreated g k) # rs) = g # created_ids rs"
| "created_ids (r # rs) = created_ids rs"


text \<open>
  What a run may do to a group that exists: its descriptive fields stay, its counters and
  its membership only grow, and its lists are only appended to.
\<close>

definition preserved :: "anonverse \<Rightarrow> anonverse \<Rightarrow> nat \<Rightarrow> bool" where
  "preserved s s' g \<longleftrightarrow>
     g < length (groups s') \<and>
     name (groups s' ! g) = name (groups s ! g) \<and>
     creator (groups s' ! g) = creator (groups s ! g) \<and>
     createdAt (groups s' ! g) = createdAt (groups s ! g) \<and>
     secret (groups s' ! g) = secret (groups s ! g) \<and>
     memberCount (groups s ! g) \<le> memberCount (groups s' ! g) \<and>
     messageCount (groups s ! g) \<le> messageCount (groups s' ! g) \<and>
     (\<forall>a. groupMembers s g a \<longrightarrow> groupMembers s' g a) \<and>
     (\<exists>ms. groupMessages s' g = groupMessages s g @ ms) \<and>
     (\<exists>as. memberLists s' g = memberLists s g @ as)"

text \<open>
  The calls that are \<open>view\<close> functions of the source.
\<close>

fun is_view :: "call \<Rightarrow> bool" where
  "is_view (CreateGroup nm) = False"
| "is_view (JoinGroup g) = False"
| "is_view (PostMessage g ct) = False"
| "is_view c = True"

text \<open>
  The number of \<open>postMessage\<close> calls in a run, and the \<open>messageCount\<close> stored for a group
  id (0 where no group has been created yet).
\<close>

fun is_post :: "call \<Rightarrow> bool" where
  "is_post (PostMessage g ct) = True"
| "is_post c = False"

definition posts :: "(env \<times> call) list \<Rightarrow> nat" where
  "posts tr = length (filter (\<lambda>(e, c). is_post c) tr)"

definition stored_messageCount :: "anonverse \<Rightarrow> nat \<Rightarrow> nat" where
  "stored_messageCount s g = (if g < length (groups s) then messageCount (groups s ! g) else 0)"

section \<open>The message cipher (src/utils/crypto.ts)\<close>

subsection \<open>Strings, bytes and numbers of the platform\<close>

text \<open>
  A JavaScript string is a sequence of 16-bit code units; a \<open>Uint8Array\<close> is a sequence of
  bytes. A number is an integer or \<open>NaN\<close> (\<open>None\<close>); the cipher never produces a fraction.
\<close>

type_synonym js_string = "16 word list"

type_synonym number = "int option"

text \<open>
  \<open>TextEncoder.encode\<close> first makes its argument a sequence of Unicode scalar values: a
  high surrogate followed by a low one is one supplementary code point, any other
  surrogate becomes U+FFFD. Then each scalar value is written in UTF-8.
\<close>

definition is_high_surrogate :: "nat \<Rightarrow> bool" where
  "is_high_surrogate u \<longleftrightarrow> 0xD800 \<le> u \<and> u \<le> 0xDBFF"

definition is_low_surrogate :: "nat \<Rightarrow> bool" where
  "is_low_surrogate u \<longleftrightarrow> 0xDC00 \<le> u \<and> u \<le> 0xDFFF"

fun utf16_to_scalars :: "nat list \<Rightarrow> nat list" where
  "utf16_to_scalars [] = []"
| "utf16_to_scalars [u] =
     (if is_high_surrogate u \<or> is_low_surrogate u then [0xFFFD] else [u])"
| "utf16_to_scalars (u # v # us) =
     (if is_high_surrogate u then
        (if is_low_surrogate v
         then (0x10000 + (u - 0xD800) * 0x400 + (v - 0xDC00)) # utf16_to_scalars us
         else 0xFFFD # utf16_to_scalars (v # us))
      else if is_low_surrogate u then 0xFFFD # utf16_to_scalars (v # us)
      else u # utf16_to_scalars (v # us))"

definition utf8_encode :: "nat \<Rightarrow> nat list" where
  "utf8_encode c =
     (if c < 0x80 then [c]
      else if c < 0x800 then [0xC0 + c div 0x40, 0x80 + c mod 0x40]
      else if c < 0x10000 then
        [0xE0 + c div 0x1000, 0x80 + c div 0x40 mod 0x40, 0x80 + c mod 0x40]
      else
        [0xF0 + c div 0x40000, 0x80 + c div 0x1000 mod 0x40, 0x80 + c div 0x40 mod 0x40,
         0x80 + c mod 0x40])"

definition TextEncoder_encode :: "js_string \<Rightarrow> 8 word list" where
  "TextEncoder_encode s = map of_nat (concat (map utf8_encode (utf16_to_scalars (map unat s))))"

text \<open>
  \<open>TextDecoder.decode\<close> with the default options: the UTF-8 decoder of the Encoding
  Standard, which replaces every ill-formed sequence by U+FFFD (and reads the offending
  byte again), then drops a byte order mark U+FEFF at the start of the output, then
  writes the code points as UTF-16 code units. The arguments of \<open>utf8_decode\<close> are the
  decoder's code point, bytes seen, bytes needed, lower and upper boundary, and the bytes
  still to read.
\<close>

function utf8_decode :: "nat \<Rightarrow> nat \<Rightarrow> nat \<Rightarrow> nat \<Rightarrow> nat \<Rightarrow> nat list \<Rightarrow> nat list" where
  "utf8_decode cp seen need lo hi [] = (if need \<noteq> 0 then [0xFFFD] else [])"
| "utf8_decode cp seen need lo hi (b # bs) =
     (if need = 0 then
        (if b \<le> 0x7F then b # utf8_decode 0 0 0 0x80 0xBF bs
         else if 0xC2 \<le> b \<and> b \<le> 0xDF then utf8_decode (b mod 0x20) 0 1 0x80 0xBF bs
         else if 0xE0 \<le> b \<and> b \<le> 0xEF then
           utf8_decode (b mod 0x10) 0 2 (if b = 0xE0 then 0xA0 else 0x80)
             (if b = 0xED then 0x9F else 0xBF) bs
         else if 0xF0 \<le> b \<and> b \<le> 0xF4 then
           utf8_decode (b mod 0x8) 0 3 (if b = 0xF0 then 0x90 else 0x80)
             (if b = 0xF4 then 0x8F else 0xBF) bs
         else 0xFFFD # utf8_decode 0 0 0 0x80 0xBF bs)
      else if \<not> (lo \<le> b \<and> b \<le> hi) then 0xFFFD # utf8_decode 0 0 0 0x80 0xBF (b # bs)
      else if seen + 1 \<noteq> need then
        utf8_decode (cp * 0x40 + b mod 0x40) (seen + 1) need 0x80 0xBF bs
      else (cp * 0x40 + b mod 0x40) # utf8_decode 0 0 0 0x80 0xBF bs)"
  by pat_completeness auto
termination
  by (relation "measure (\<lambda>(cp, seen, need, lo, hi, bs). 2 * length bs + (if need = 0 then 0 else 1))")
    auto

definition strip_bom :: "nat list \<Rightarrow> nat list" where
  "strip_bom cps = (case cps of [] \<Rightarrow> [] | c # cs \<Rightarrow> if c = 0xFEFF then cs else c # cs)"

definition utf16_encode :: "nat \<Rightarrow> nat list" where
  "utf16_encode c =
     (if c < 0x10000 then [c]
      else [0xD800 + (c - 0x10000) div 0x400, 0xDC00 + (c - 0x10000) mod 0x400])"

definition TextDecoder_decode :: "8 word list \<Rightarrow> js_string" where
  "TextDecoder_decode bytes =
     map of_nat (concat (map utf16_encode (strip_bom (utf8_decode 0 0 0 0x80 0xBF (map unat bytes)))))"

text \<open>
  The operator \<open>^\<close> converts both operands to 32-bit integers (\<open>NaN\<close> to 0) and combines
  them bitwise; storing a number into a \<open>Uint8Array\<close> keeps its low eight bits.
\<close>

definition ToInt32 :: "number \<Rightarrow> 32 word" where
  "ToInt32 x = (case x of None \<Rightarrow> 0 | Some n \<Rightarrow> word_of_int n)"

definition js_xor :: "number \<Rightarrow> number \<Rightarrow> number" where
  "js_xor a b = Some (sint (ToInt32 a XOR ToInt32 b))"

definition ToUint8 :: "number \<Rightarrow> 8 word" where
  "ToUint8 x = (case x of None \<Rightarrow> 0 | Some n \<Rightarrow> word_of_int n)"

definition byte_number :: "8 word \<Rightarrow> number" where
  "byte_number b = Some (uint b)"

text \<open>
  \<open>Number.prototype.toString(16)\<close> on a non-negative integer, and \<open>padStart(2, '0')\<close>.
\<close>

definition hex_digit :: "nat \<Rightarrow> 16 word" where
  "hex_digit d = (if d < 10 then of_nat (0x30 + d) else of_nat (0x61 + (d - 10)))"

function toString16 :: "nat \<Rightarrow> js_string" where
  "toString16 n = (if n < 16 then [hex_digit n] else toString16 (n div 16) @ [hex_digit (n mod 16)])"
  by pat_completeness auto
termination
  by (relation "measure id") auto

declare toString16.simps [simp del]

definition padStart2 :: "js_string \<Rightarrow> js_string" where
  "padStart2 s = replicate (2 - length s) 0x30 @ s"

text \<open>
  \<open>String.prototype.match(/.{1,2}/g)\<close>: the successive matches of one or two code units
  that are not line terminators, greedily, from left to right; a line terminator belongs
  to no match. (No match at all gives \<open>null\<close>, which \<open>?? []\<close> turns into the empty list.)
\<close>

definition is_line_terminator :: "16 word \<Rightarrow> bool" where
  "is_line_terminator u \<longleftrightarrow> unat u \<in> {0x0A, 0x0D, 0x2028, 0x2029}"

fun match_pairs :: "js_string \<Rightarrow> js_string list" where
  "match_pairs [] = []"
| "match_pairs [c] = (if is_line_terminator c then [] else [[c]])"
| "match_pairs (c # d # cs) =
     (if is_line_terminator c then match_pairs (d # cs)
      else if is_line_terminator d then [c] # match_pairs cs
      else [c, d] # match_pairs cs)"

text \<open>
  \<open>parseInt(s, 16)\<close>: leading white space is skipped, then an optional sign, then an
  optional \<open>0x\<close> or \<open>0X\<close>, then the longest run of hexadecimal digits is read; with no
  digit the result is \<open>NaN\<close>. It is applied to strings of at most two code units here, so
  the value is exact.
\<close>

definition is_white_space :: "16 word \<Rightarrow> bool" where
  "is_white_space u \<longleftrightarrow>
     unat u \<in> {0x09, 0x0B, 0x0C, 0x20, 0xA0, 0xFEFF, 0x1680, 0x202F, 0x205F, 0x3000} \<or>
     (0x2000 \<le> unat u \<and> unat u \<le> 0x200A) \<or> is_line_terminator u"

definition hex_value :: "16 word \<Rightarrow> nat option" where
  "hex_value u =
     (if 0x30 \<le> unat u \<and> unat u \<le> 0x39 then Some (unat u - 0x30)
      else if 0x61 \<le> unat u \<and> unat u \<le> 0x66 then Some (unat u - 0x61 + 10)
      else if 0x41 \<le> unat u \<and> unat u \<le> 0x46 then Some (unat u - 0x41 + 10)
      else None)"

fun hex_digits :: "js_string \<Rightarrow> nat list" where
  "hex_digits [] = []"
| "hex_digits (u # us) = (case hex_value u of None \<Rightarrow> [] | Some d \<Rightarrow> d # hex_digits us)"

definition strip_sign :: "js_string \<Rightarrow> int \<times> js_string" where
  "strip_sign s =
     (case s of
        [] \<Rightarrow> (1, [])
      | c # cs \<Rightarrow>
          if unat c = 0x2D then (- 1, cs) else if unat c = 0x2B then (1, cs) else (1, c # cs))"

definition strip_prefix_0x :: "js_string \<Rightarrow> js_string" where
  "strip_prefix_0x s =
     (case s of
        c # d # cs \<Rightarrow>
          if unat c = 0x30 \<and> (unat d = 0x78 \<or> unat d = 0x58) then cs else s
      | _ \<Rightarrow> s)"

definition parseInt16 :: "js_string \<Rightarrow> number" where
  "parseInt16 s =
     (let (sgn, s1) = strip_sign (dropWhile is_white_space s);
          ds = hex_digits (strip_prefix_0x s1)
      in if ds = [] then None else Some (sgn * int (foldl (\<lambda>a d. 16 * a + d) 0 ds)))"

subsection \<open>The cipher\<close>

text \<open>
  \<open>keyBytes\<close>: \<open>DataView.setUint32(0, key)\<close> stores the key modulo \<open>2^32\<close> in four bytes, most
  significant first.
\<close>

definition keyBytes :: "int \<Rightarrow> 8 word list" where
  "keyBytes key =
     (let n = nat (key mod 2 ^ 32)
      in [of_nat (n div 2 ^ 24), of_nat (n div 2 ^ 16 mod 256), of_nat (n div 2 ^ 8 mod 256),
          of_nat (n mod 256)])"

definition encodeMessage :: "js_string \<Rightarrow> int \<Rightarrow> js_string" where
  "encodeMessage message key =
     (let msgBytes = TextEncoder_encode message;
          bytesKey = keyBytes key;
          encrypted = map (\<lambda>(idx, byte).
              ToUint8 (js_xor (byte_number byte)
                 (byte_number (bytesKey ! (idx mod length bytesKey)))))
            (enumerate 0 msgBytes)
      in concat (map (\<lambda>val. padStart2 (toString16 (unat val))) encrypted))"

definition decodeMessage :: "js_string \<Rightarrow> int \<Rightarrow> js_string" where
  "decodeMessage cipherHex key =
     (if cipherHex = [] then []
      else
        let bytes = map parseInt16 (match_pairs cipherHex);
            bytesKey = keyBytes key;
            decrypted = map (\<lambda>(idx, byte).
                js_xor byte (byte_number (bytesKey ! (idx mod length bytesKey))))
              (enumerate 0 bytes)
        in TextDecoder_decode (map ToUint8 decrypted))"

text \<open>
  A string is well-formed UTF-16 when every surrogate is part of a pair.
\<close>

fun well_formed_utf16 :: "nat list \<Rightarrow> bool" where
  "well_formed_utf16 [] = True"
| "well_formed_utf16 [u] = (\<not> is_high_surrogate u \<and> \<not> is_low_surrogate u)"
| "well_formed_utf16 (u # v # us) =
     (if is_high_surrogate u then is_low_surrogate v \<and> well_formed_utf16 us
      else \<not> is_low_surrogate u \<and> well_formed_utf16 (v # us))"

definition starts_with_bom :: "js_string \<Rightarrow> bool" where
  "starts_with_bom s = (case s of [] \<Rightarrow> False | u # us \<Rightarrow> unat u = 0xFEFF)"

text \<open>
  Scalar values are the code points that are not surrogates. The two hexadecimal digits
  of a byte.
\<close>

definition is_scalar :: "nat \<Rightarrow> bool" where
  "is_scalar c \<longleftrightarrow> c < 0x110000 \<and> \<not> (0xD800 \<le> c \<and> c \<le> 0xDFFF)"

definition hex_byte :: "8 word \<Rightarrow> js_string" where
  "hex_byte v = [hex_digit (unat v div 16), hex_digit (unat v mod 16)]"

subsection \<open>Example data\<close>

definition alice :: address where
  "alice = 0xA11CE"

definition bob :: address where
  "bob = 0xB0B"

definition contract_address :: address where
  "contract_address = 0xC0DE"

definition tx_alice :: env where
  "tx_alice = \<lparr>msg_sender = alice, block_timestamp = 1700000000, rand_draw = 3123456789,
               rand_handle = 1, rem_handle = 2\<rparr>"

definition tx_bob :: env where
  "tx_bob = \<lparr>msg_sender = bob, block_timestamp = 1700000060, rand_draw = 77,
             rand_handle = 3, rem_handle = 4\<rparr>"

text \<open>
  States of a small scenario: Alice creates the group "Alpha", Bob joins it, Bob posts a
  message.
\<close>

definition st_alpha :: anonverse where
  "st_alpha = snd (transact tx_alice (CreateGroup ''Alpha'') (deploy contract_address))"

definition st_joined :: anonverse where
  "st_joined = snd (transact tx_bob (JoinGroup 0) st_alpha)"

definition st_posted :: anonverse where
  "st_posted = snd (transact tx_bob (PostMessage 0 ''2b3c'') st_joined)"

section \<open>Properties of the contract\<close>

subsection \<open>The storage stays consistent\<close>

lemma consistent_deploy: "consistent (deploy self)"
  by (simp add: consistent_def deploy_def unused_def)

lemma consistent_createGroup:
  assumes "consistent s" and "createGroup e nm s = Inr (r, s')"
  shows "consistent s'"
proof -
  from assms(2) have nm: "nm \<noteq> []" by (auto simp: createGroup_def split: if_splits)
  have un: "unused s (length (groups s))" using assms(1) by (simp add: consistent_def)
  show ?thesis
    unfolding consistent_def
  proof (intro allI)
    fix g
    consider "g < length (groups s)" | "g = length (groups s)" | "g > length (groups s)"
      by linarith
    then show "if g < length (groups s') then group_ok s' g else unused s' g"
    proof cases
      case 1
      then have "group_ok s g" using assms(1) by (simp add: consistent_def)
      with 1 assms(2) nm show ?thesis
        by (auto simp: createGroup_def Let_def group_ok_def FHE_allow_def FHE_allowThis_def
            emit_def nth_append)
    next
      case 2
      with un assms(2) nm show ?thesis
        by (auto simp: createGroup_def Let_def group_ok_def unused_def FHE_allow_def
            FHE_allowThis_def FHE_rem_def emit_def nth_append split: if_splits)
    next
      case 3
      then have "unused s g" using assms(1) by (simp add: consistent_def)
      with 3 assms(2) nm show ?thesis
        by (auto simp: createGroup_def Let_def unused_def FHE_allow_def FHE_allowThis_def
            emit_def)
    qed
  qed
qed

lemma consistent_joinGroup:
  assumes "consistent s" and "joinGroup e gid s = Inr s'"
  shows "consistent s'"
proof -
  from assms(2) have v: "gid < length (groups s)" and nm: "\<not> groupMembers s gid (msg_sender e)"
    by (auto simp: joinGroup_def validGroup_def split: if_splits)
  show ?thesis
    unfolding consistent_def
  proof (intro allI)
    fix g
    have len: "length (groups s') = length (groups s)"
      using assms(2) v nm
      by (auto simp: joinGroup_def validGroup_def Let_def FHE_allow_def emit_def checked_add_def
          split: if_splits)
    show "if g < length (groups s') then group_ok s' g else unused s' g"
    proof (cases "g < length (groups s)")
      case True
      then have ok: "group_ok s g" using assms(1) by (simp add: consistent_def)
      show ?thesis
      proof (cases "g = gid")
        case True
        with ok v nm assms(2) len show ?thesis
          by (auto simp: joinGroup_def validGroup_def Let_def group_ok_def FHE_allow_def
              emit_def checked_add_def split: if_splits)
      next
        case False
        with ok True v nm assms(2) len show ?thesis
          by (auto simp: joinGroup_def validGroup_def Let_def group_ok_def FHE_allow_def
              emit_def checked_add_def split: if_splits)
      qed
    next
      case False
      then have "unused s g" using assms(1) by (simp add: consistent_def)
      with False v nm assms(2) len show ?thesis
        by (auto simp: joinGroup_def validGroup_def Let_def unused_def FHE_allow_def
            emit_def checked_add_def split: if_splits)
    qed
  qed
qed

lemma consistent_postMessage:
  assumes "consistent s" and "postMessage e gid ct s = Inr s'"
  shows "consistent s'"
proof -
  from assms(2) have v: "gid < length (groups s)"
    by (auto simp: postMessage_def validGroup_def split: if_splits)
  show ?thesis
    unfolding consistent_def
  proof (intro allI)
    fix g
    have len: "length (groups s') = length (groups s)"
      using assms(2) v
      by (auto simp: postMessage_def validGroup_def Let_def emit_def checked_add_def
          split: if_splits)
    show "if g < length (groups s') then group_ok s' g else unused s' g"
    proof (cases "g < length (groups s)")
      case True
      then have ok: "group_ok s g" using assms(1) by (simp add: consistent_def)
      show ?thesis
      proof (cases "g = gid")
        case True
        with ok v assms(2) len show ?thesis
          by (auto simp: postMessage_def validGroup_def Let_def group_ok_def
              emit_def checked_add_def split: if_splits)
      next
        case False
        with ok True v assms(2) len show ?thesis
          by (auto simp: postMessage_def validGroup_def Let_def group_ok_def
              emit_def checked_add_def split: if_splits)
      qed
    next
      case False
      then have "unused s g" using assms(1) by (simp add: consistent_def)
      with False v assms(2) len show ?thesis
        by (auto simp: postMessage_def validGroup_def Let_def unused_def
            emit_def checked_add_def split: if_splits)
    qed
  qed
qed

lemma view_result_state: "view_result f s r = Inr (v, s') \<Longrightarrow> s' = s"
  by (auto simp: view_result_def split: sum.splits)

lemma consistent_transact:
  assumes "consistent s"
  shows "consistent (snd (transact e c s))"
proof (cases "dispatch e c s")
  case (Inl err)
  then show ?thesis using assms by (simp add: transact_def)
next
  case (Inr p)
  obtain r s' where p: "p = (r, s')" by (cases p)
  have "consistent s'"
  proof (cases c)
    case (CreateGroup nm)
    with Inr p assms show ?thesis
      by (auto split: sum.splits dest: consistent_createGroup)
  next
    case (JoinGroup g)
    with Inr p assms show ?thesis
      by (auto split: sum.splits dest: consistent_joinGroup)
  next
    case (PostMessage g ct)
    with Inr p assms show ?thesis
      by (auto split: sum.splits dest: consistent_postMessage)
  qed (use Inr p assms in \<open>auto dest: view_result_state\<close>)
  with Inr p show ?thesis by (simp add: transact_def)
qed

lemma reachable_consistent: "reachable s \<Longrightarrow> consistent s"
  by (induction rule: reachable.induct) (auto intro: consistent_deploy consistent_transact)

subsection \<open>Group ids\<close>

lemma createGroup_Inr:
  "createGroup e nm s = Inr ((g, k), s') \<Longrightarrow>
     g = length (groups s) \<and> length (groups s') = Suc (length (groups s))"
  by (auto simp: createGroup_def Let_def FHE_allow_def FHE_allowThis_def emit_def
      split: if_splits)

lemma joinGroup_length: "joinGroup e g s = Inr s' \<Longrightarrow> length (groups s') = length (groups s)"
  by (auto simp: joinGroup_def Let_def FHE_allow_def emit_def checked_add_def split: if_splits)

lemma postMessage_length:
  "postMessage e g ct s = Inr s' \<Longrightarrow> length (groups s') = length (groups s)"
  by (auto simp: postMessage_def Let_def emit_def checked_add_def split: if_splits)

lemma transact_created:
  "created_ids [fst (transact e c s)] =
     [length (groups s) ..< length (groups (snd (transact e c s)))]"
proof (cases c)
  case (CreateGroup nm)
  then show ?thesis
    by (auto simp: transact_def split: sum.splits dest!: createGroup_Inr)
next
  case (JoinGroup g)
  then show ?thesis
    by (auto simp: transact_def split: sum.splits dest!: joinGroup_length)
next
  case (PostMessage g ct)
  then show ?thesis
    by (auto simp: transact_def split: sum.splits dest!: postMessage_length)
qed (auto simp: transact_def view_result_def split: sum.splits prod.splits)

lemma created_ids_Cons: "created_ids (r # rs) = created_ids [r] @ created_ids rs"
  by (cases "(r # rs)" rule: created_ids.cases) auto

lemma transact_length_mono: "length (groups s) \<le> length (groups (snd (transact e c s)))"
proof (cases c)
  case (CreateGroup nm)
  then show ?thesis
    by (auto simp: transact_def split: sum.splits dest!: createGroup_Inr)
next
  case (JoinGroup g)
  then show ?thesis
    by (auto simp: transact_def split: sum.splits dest!: joinGroup_length)
next
  case (PostMessage g ct)
  then show ?thesis
    by (auto simp: transact_def split: sum.splits dest!: postMessage_length)
qed (auto simp: transact_def view_result_def split: sum.splits prod.splits)

lemma run_Cons_fst:
  "fst (run ((e, c) # tr) s) = fst (transact e c s) # fst (run tr (snd (transact e c s)))"
  by (simp add: case_prod_unfold Let_def)

lemma run_Cons_snd: "snd (run ((e, c) # tr) s) = snd (run tr (snd (transact e c s)))"
  by (simp add: case_prod_unfold Let_def)

lemma run_length_mono: "length (groups s) \<le> length (groups (snd (run tr s)))"
proof (induction tr arbitrary: s)
  case Nil
  then show ?case by simp
next
  case (Cons p tr)
  obtain e c where p: "p = (e, c)" by (cases p)
  have "length (groups s) \<le> length (groups (snd (transact e c s)))"
    by (rule transact_length_mono)
  also have "\<dots> \<le> length (groups (snd (run tr (snd (transact e c s)))))"
    by (rule Cons.IH)
  finally show ?case by (simp only: p run_Cons_snd)
qed

lemma upt_split: "i \<le> j \<Longrightarrow> j \<le> k \<Longrightarrow> [i..<j] @ [j..<k] = [i..<k]"
  using upt_add_eq_append [of i j "k - j"] by simp

lemma run_created:
  "created_ids (fst (run tr s)) = [length (groups s) ..< length (groups (snd (run tr s)))]"
proof (induction tr arbitrary: s)
  case Nil
  then show ?case by simp
next
  case (Cons p tr)
  obtain e c where p: "p = (e, c)" by (cases p)
  let ?s1 = "snd (transact e c s)"
  have a: "created_ids [fst (transact e c s)] = [length (groups s) ..< length (groups ?s1)]"
    by (rule transact_created)
  have b: "created_ids (fst (run tr ?s1)) = [length (groups ?s1) ..< length (groups (snd (run tr ?s1)))]"
    by (rule Cons.IH)
  have c: "length (groups s) \<le> length (groups ?s1)" by (rule transact_length_mono)
  have d: "length (groups ?s1) \<le> length (groups (snd (run tr ?s1)))" by (rule run_length_mono)
  have "created_ids (fst (run (p # tr) s)) =
          created_ids [fst (transact e c s)] @ created_ids (fst (run tr ?s1))"
    unfolding p run_Cons_fst by (rule created_ids_Cons)
  also have "\<dots> = [length (groups s) ..< length (groups (snd (run tr ?s1)))]"
    unfolding a b using c d by (rule upt_split)
  finally show ?case by (simp only: p run_Cons_snd)
qed


text \<open>
  C2. In every run from the freshly deployed contract, whatever calls it is made of, the
  group ids returned by the successful \<open>createGroup\<close> calls are \<open>0, 1, \<dots>, n - 1\<close> in this
  order, where \<open>n\<close> is the final \<open>getGroupCount()\<close>; so the count is the number of
  successful calls, and no id is skipped or given twice. Each successful call returns the
  count as it was immediately before the call and raises the count by one.
\<close>

theorem group_ids_sequential:
  "created_ids (fst (run tr (deploy self))) = [0 ..< getGroupCount (snd (run tr (deploy self)))]
   \<and> getGroupCount (snd (run tr (deploy self))) = length (created_ids (fst (run tr (deploy self))))
   \<and> (\<forall>e nm s g k s'. createGroup e nm s = Inr ((g, k), s') \<longrightarrow>
         g = getGroupCount s \<and> getGroupCount s' = Suc g)"
proof -
  have a: "created_ids (fst (run tr (deploy self))) =
             [0 ..< getGroupCount (snd (run tr (deploy self)))]"
    using run_created [of tr "deploy self"] by (simp add: getGroupCount_def deploy_def)
  have b: "getGroupCount (snd (run tr (deploy self))) = length (created_ids (fst (run tr (deploy self))))"
    by (simp add: a)
  have c: "\<forall>e nm s g k s'. createGroup e nm s = Inr ((g, k), s') \<longrightarrow>
         g = getGroupCount s \<and> getGroupCount s' = Suc g"
    by (auto simp: getGroupCount_def dest!: createGroup_Inr)
  from a b c show ?thesis by blast
qed

theorem group_ids_sequential_witness:
  "created_ids (fst (run [(tx_alice, CreateGroup ''Alpha''), (tx_bob, CreateGroup []),
                          (tx_bob, CreateGroup ''Beta'')] (deploy contract_address))) = [0, 1]
   \<and> getGroupCount (snd (run [(tx_alice, CreateGroup ''Alpha''), (tx_bob, CreateGroup []),
                          (tx_bob, CreateGroup ''Beta'')] (deploy contract_address))) = 2
   \<and> (\<exists>k s'. createGroup tx_alice ''Alpha'' (deploy contract_address) = Inr ((0, k), s')
        \<and> getGroupCount s' = 1)"
proof -
  have c: "\<exists>k s'. createGroup tx_alice ''Alpha'' (deploy contract_address) = Inr ((0, k), s')"
    by (simp add: createGroup_def Let_def deploy_def)
  have n: "getGroupCount (snd (run [(tx_alice, CreateGroup ''Alpha''), (tx_bob, CreateGroup []),
                          (tx_bob, CreateGroup ''Beta'')] (deploy contract_address))) = 2"
    by (simp add: getGroupCount_def transact_def createGroup_def Let_def deploy_def
        FHE_allow_def FHE_allowThis_def emit_def)
  from c n show ?thesis
    using group_ids_sequential [of "[(tx_alice, CreateGroup ''Alpha''), (tx_bob, CreateGroup []),
                          (tx_bob, CreateGroup ''Beta'')]" contract_address]
    by (auto simp: getGroupCount_def deploy_def upt_conv_Cons)
qed

subsection \<open>What a transaction preserves\<close>

lemma preserved_refl: "g < length (groups s) \<Longrightarrow> preserved s s g"
  by (simp add: preserved_def)

lemma preserved_trans:
  assumes "preserved s s1 g" and "preserved s1 s2 g"
  shows "preserved s s2 g"
proof -
  from assms obtain ms1 ms2 as1 as2 where
    "groupMessages s1 g = groupMessages s g @ ms1" "groupMessages s2 g = groupMessages s1 g @ ms2"
    "memberLists s1 g = memberLists s g @ as1" "memberLists s2 g = memberLists s1 g @ as2"
    unfolding preserved_def by blast
  then have "groupMessages s2 g = groupMessages s g @ (ms1 @ ms2)"
    and "memberLists s2 g = memberLists s g @ (as1 @ as2)" by simp_all
  then have "\<exists>ms. groupMessages s2 g = groupMessages s g @ ms"
    and "\<exists>as. memberLists s2 g = memberLists s g @ as" by blast+
  with assms show ?thesis
    unfolding preserved_def by (metis (no_types, lifting) order_trans)
qed

lemma createGroup_preserved:
  "createGroup e nm s = Inr (r, s') \<Longrightarrow> g < length (groups s) \<Longrightarrow> preserved s s' g"
  by (auto simp: createGroup_def Let_def FHE_allow_def FHE_allowThis_def emit_def preserved_def
      nth_append split: if_splits)

lemma joinGroup_preserved:
  "joinGroup e gid s = Inr s' \<Longrightarrow> g < length (groups s) \<Longrightarrow> preserved s s' g"
  by (cases "g = gid")
    (auto simp: joinGroup_def validGroup_def Let_def FHE_allow_def emit_def preserved_def
      checked_add_def split: if_splits)

lemma postMessage_preserved:
  "postMessage e gid ct s = Inr s' \<Longrightarrow> g < length (groups s) \<Longrightarrow> preserved s s' g"
  by (cases "g = gid")
    (auto simp: postMessage_def validGroup_def Let_def emit_def preserved_def
      checked_add_def split: if_splits)

lemma transact_preserved:
  assumes "g < length (groups s)"
  shows "preserved s (snd (transact e c s)) g"
proof (cases "dispatch e c s")
  case (Inl err)
  then show ?thesis using assms by (simp add: transact_def preserved_refl)
next
  case (Inr p)
  obtain r s' where p: "p = (r, s')" by (cases p)
  have "preserved s s' g"
  proof (cases c)
    case (CreateGroup nm)
    with Inr p assms show ?thesis
      by (auto split: sum.splits dest: createGroup_preserved)
  next
    case (JoinGroup gid)
    with Inr p assms show ?thesis
      by (auto split: sum.splits dest: joinGroup_preserved)
  next
    case (PostMessage gid ct)
    with Inr p assms show ?thesis
      by (auto split: sum.splits dest: postMessage_preserved)
  qed (use Inr p assms in \<open>auto dest!: view_result_state simp: preserved_refl\<close>)
  with Inr p show ?thesis by (simp add: transact_def)
qed

lemma run_preserved: "g < length (groups s) \<Longrightarrow> preserved s (snd (run tr s)) g"
proof (induction tr arbitrary: s)
  case Nil
  then show ?case by (simp add: preserved_refl)
next
  case (Cons p tr)
  obtain e c where p: "p = (e, c)" by (cases p)
  have a: "preserved s (snd (transact e c s)) g"
    using Cons.prems by (rule transact_preserved)
  then have "g < length (groups (snd (transact e c s)))" by (simp add: preserved_def)
  then have "preserved (snd (transact e c s)) (snd (run tr (snd (transact e c s)))) g"
    by (rule Cons.IH)
  with a show ?case unfolding p run_Cons_snd by (rule preserved_trans)
qed

lemma reachable_run: "reachable s \<Longrightarrow> reachable (snd (run tr s))"
proof (induction tr arbitrary: s)
  case Nil
  then show ?case by simp
next
  case (Cons p tr)
  obtain e c where p: "p = (e, c)" by (cases p)
  from Cons.prems have "reachable (snd (transact e c s))" by (rule reachable_step)
  then show ?case unfolding p run_Cons_snd by (rule Cons.IH)
qed

subsection \<open>The effect of each function\<close>

lemma isMember_valid: "validGroup s g \<Longrightarrow> isMember s g a = Inr (groupMembers s g a)"
  by (simp add: isMember_def)

lemma createGroup_success: "nm \<noteq> [] \<Longrightarrow> \<exists>gid k s'. createGroup e nm s = Inr ((gid, k), s')"
  by (simp add: createGroup_def Let_def)

lemma createGroup_fields:
  assumes "createGroup e nm s = Inr ((gid, k), s')"
  shows "gid = length (groups s)" and "gid < length (groups s')"
    and "groups s' ! gid = \<lparr>name = nm, creator = msg_sender e, secret = k,
           createdAt = block_timestamp e, memberCount = 1, messageCount = 0\<rparr>"
    and "groupMembers s' gid (msg_sender e)"
    and "plain k = rand_draw e mod 1000000"
    and "acl s' (handle k) = insert (thisAddress s) (insert (msg_sender e) (acl s (handle k)))"
    and "thisAddress s' = thisAddress s"
  using assms
  by (auto simp: createGroup_def Let_def FHE_allow_def FHE_allowThis_def FHE_rem_def
      FHE_randEuint32_def emit_def split: if_splits)

lemma unat_mod_million: "unat ((w :: 32 word) mod 1000000) < 1000000"
  by (simp add: unat_mod)

lemma joinGroup_fields:
  assumes "joinGroup e g s = Inr s'"
  shows "g < length (groups s)" and "\<not> groupMembers s g (msg_sender e)"
    and "length (groups s') = length (groups s)"
    and "groupMembers s' g (msg_sender e)"
    and "memberCount (groups s' ! g) = memberCount (groups s ! g) + 1"
    and "secret (groups s' ! g) = secret (groups s ! g)"
    and "acl s' (handle (secret (groups s ! g))) =
           insert (msg_sender e) (acl s (handle (secret (groups s ! g))))"
  using assms
  by (auto simp: joinGroup_def validGroup_def Let_def FHE_allow_def emit_def checked_add_def
      split: if_splits)

lemma joinGroup_success:
  assumes "validGroup s g" and "\<not> groupMembers s g (msg_sender e)"
    and "memberCount (groups s ! g) < max_uint256"
  shows "\<exists>s'. joinGroup e g s = Inr s'"
  using assms by (simp add: joinGroup_def Let_def checked_add_def)

lemma postMessage_fields:
  assumes "postMessage e g ct s = Inr s'"
  shows "g < length (groups s)" and "groupMembers s g (msg_sender e)" and "ct \<noteq> []"
    and "length (groups s') = length (groups s)"
    and "messageCount (groups s' ! g) = messageCount (groups s ! g) + 1"
    and "groupMessages s' g = groupMessages s g @
           [\<lparr>sender = msg_sender e, cipherText = ct, timestamp = block_timestamp e\<rparr>]"
    and "groupMembers s' = groupMembers s"
  using assms
  by (auto simp: postMessage_def validGroup_def Let_def emit_def checked_add_def
      split: if_splits)

lemma postMessage_success:
  assumes "validGroup s g" and "groupMembers s g (msg_sender e)" and "ct \<noteq> []"
    and "messageCount (groups s ! g) < max_uint256"
  shows "\<exists>s'. postMessage e g ct s = Inr s'"
  using assms by (simp add: postMessage_def Let_def checked_add_def)

subsection \<open>Posts bound the message counter\<close>

lemma createGroup_messageCount:
  "createGroup e nm s = Inr (r, s') \<Longrightarrow> stored_messageCount s' g = stored_messageCount s g"
  by (auto simp: createGroup_def Let_def FHE_allow_def FHE_allowThis_def emit_def
      stored_messageCount_def nth_append split: if_splits)

lemma joinGroup_messageCount:
  "joinGroup e gid s = Inr s' \<Longrightarrow> stored_messageCount s' g = stored_messageCount s g"
  by (cases "g = gid")
    (auto simp: joinGroup_def validGroup_def Let_def FHE_allow_def emit_def checked_add_def
      stored_messageCount_def split: if_splits)

lemma postMessage_messageCount:
  "postMessage e gid ct s = Inr s' \<Longrightarrow> stored_messageCount s' g \<le> stored_messageCount s g + 1"
  by (cases "g = gid")
    (auto simp: postMessage_def validGroup_def Let_def emit_def checked_add_def
      stored_messageCount_def split: if_splits)

lemma transact_messageCount:
  "stored_messageCount (snd (transact e c s)) g \<le>
     stored_messageCount s g + (if is_post c then 1 else 0)"
proof (cases "dispatch e c s")
  case (Inl err)
  then show ?thesis by (simp add: transact_def)
next
  case (Inr p)
  obtain r s' where p: "p = (r, s')" by (cases p)
  have "stored_messageCount s' g \<le> stored_messageCount s g + (if is_post c then 1 else 0)"
  proof (cases c)
    case (CreateGroup nm)
    with Inr p show ?thesis
      by (auto split: sum.splits dest: createGroup_messageCount [where g = g])
  next
    case (JoinGroup gid)
    with Inr p show ?thesis
      by (auto split: sum.splits dest: joinGroup_messageCount [where g = g])
  next
    case (PostMessage gid ct)
    with Inr p show ?thesis
      by (auto split: sum.splits dest: postMessage_messageCount [where g = g])
  qed (use Inr p in \<open>auto dest!: view_result_state\<close>)
  with Inr p show ?thesis by (simp add: transact_def)
qed

lemma posts_Cons: "posts ((e, c) # tr) = (if is_post c then 1 else 0) + posts tr"
  by (simp add: posts_def)

lemma run_messageCount:
  "stored_messageCount (snd (run tr s)) g \<le> stored_messageCount s g + posts tr"
proof (induction tr arbitrary: s)
  case Nil
  then show ?case by (simp add: posts_def)
next
  case (Cons p tr)
  obtain e c where p: "p = (e, c)" by (cases p)
  have "stored_messageCount (snd (run tr (snd (transact e c s)))) g \<le>
          stored_messageCount (snd (transact e c s)) g + posts tr"
    by (rule Cons.IH)
  also have "\<dots> \<le> stored_messageCount s g + (if is_post c then 1 else 0) + posts tr"
    using transact_messageCount [of e c s g] by simp
  finally show ?case unfolding p run_Cons_snd posts_Cons by simp
qed

lemma deploy_run_messageCount:
  assumes "validGroup (snd (run tr (deploy self))) g"
  shows "messageCount (groups (snd (run tr (deploy self))) ! g) \<le> posts tr"
proof -
  have "stored_messageCount (snd (run tr (deploy self))) g \<le>
          stored_messageCount (deploy self) g + posts tr"
    by (rule run_messageCount)
  moreover have "stored_messageCount (deploy self) g = 0"
    by (simp add: stored_messageCount_def deploy_def)
  ultimately show ?thesis
    using assms by (simp add: stored_messageCount_def validGroup_def)
qed

subsection \<open>Consequences of consistency\<close>

lemma reachable_group_ok:
  assumes "reachable s" and "validGroup s g"
  shows "group_ok s g"
proof -
  from assms(1) have "consistent s" by (rule reachable_consistent)
  then have "if g < length (groups s) then group_ok s g else unused s g"
    unfolding consistent_def by (rule spec)
  with assms(2) show ?thesis by (simp add: validGroup_def)
qed

lemma reachable_messageCount:
  "reachable s \<Longrightarrow> validGroup s g \<Longrightarrow> messageCount (groups s ! g) = length (groupMessages s g)"
  using reachable_group_ok [of s g] by (simp add: group_ok_def)

lemma distinct_address_length:
  assumes "distinct (xs :: address list)"
  shows "length xs \<le> 2 ^ 160"
proof -
  have "length xs = card (set xs)" using assms by (simp add: distinct_card)
  also have "\<dots> \<le> card (UNIV :: address set)" by (rule card_mono) simp_all
  also have "\<dots> = 2 ^ 160" by (simp add: card_word)
  finally show ?thesis .
qed

lemma reachable_memberCount_bound:
  assumes "reachable s" and "validGroup s g"
  shows "memberCount (groups s ! g) < max_uint256"
proof -
  from assms have ok: "group_ok s g"
    using reachable_consistent [of s] by (simp add: consistent_def validGroup_def)
  then have "memberCount (groups s ! g) \<le> 2 ^ 160"
    using distinct_address_length [of "memberLists s g"] by (simp add: group_ok_def)
  also have "(2::nat) ^ 160 < max_uint256" by (simp add: max_uint256_def)
  finally show ?thesis .
qed

subsection \<open>The example scenario\<close>

lemma st_alpha_eq:
  "st_alpha =
     \<lparr>groups = [\<lparr>name = ''Alpha'', creator = alice, secret = \<lparr>handle = 2, plain = 456789\<rparr>,
                 createdAt = 1700000000, memberCount = 1, messageCount = 0\<rparr>],
      groupMembers = (\<lambda>_ _. False)(0 := (\<lambda>_. False)(alice := True)),
      memberLists = (\<lambda>_. [])(0 := [alice]),
      groupMessages = (\<lambda>_. []),
      thisAddress = contract_address,
      acl = (\<lambda>_. {})(2 := {contract_address, alice}),
      events = [GroupCreated 0 alice ''Alpha'' \<lparr>handle = 2, plain = 456789\<rparr>]\<rparr>"
  by (simp add: st_alpha_def transact_def createGroup_def Let_def deploy_def tx_alice_def
      FHE_rem_def FHE_randEuint32_def FHE_allow_def FHE_allowThis_def emit_def)

lemma alice_neq_bob: "alice \<noteq> bob" "bob \<noteq> alice"
  by (simp_all add: alice_def bob_def)

lemma st_joined_eq:
  "st_joined =
     \<lparr>groups = [\<lparr>name = ''Alpha'', creator = alice, secret = \<lparr>handle = 2, plain = 456789\<rparr>,
                 createdAt = 1700000000, memberCount = 2, messageCount = 0\<rparr>],
      groupMembers = (\<lambda>_ _. False)(0 := (\<lambda>_. False)(alice := True, bob := True)),
      memberLists = (\<lambda>_. [])(0 := [alice, bob]),
      groupMessages = (\<lambda>_. []),
      thisAddress = contract_address,
      acl = (\<lambda>_. {})(2 := {bob, contract_address, alice}),
      events = [GroupCreated 0 alice ''Alpha'' \<lparr>handle = 2, plain = 456789\<rparr>,
                MemberJoined 0 bob]\<rparr>"
  by (simp add: st_joined_def st_alpha_eq transact_def joinGroup_def validGroup_def Let_def
      tx_bob_def FHE_allow_def emit_def checked_add_def max_uint256_def alice_neq_bob)

lemma st_posted_eq:
  "st_posted =
     \<lparr>groups = [\<lparr>name = ''Alpha'', creator = alice, secret = \<lparr>handle = 2, plain = 456789\<rparr>,
                 createdAt = 1700000000, memberCount = 2, messageCount = 1\<rparr>],
      groupMembers = (\<lambda>_ _. False)(0 := (\<lambda>_. False)(alice := True, bob := True)),
      memberLists = (\<lambda>_. [])(0 := [alice, bob]),
      groupMessages = (\<lambda>_. [])(0 := [\<lparr>sender = bob, cipherText = ''2b3c'',
                                         timestamp = 1700000060\<rparr>]),
      thisAddress = contract_address,
      acl = (\<lambda>_. {})(2 := {bob, contract_address, alice}),
      events = [GroupCreated 0 alice ''Alpha'' \<lparr>handle = 2, plain = 456789\<rparr>,
                MemberJoined 0 bob, MessagePosted 0 bob ''2b3c'' 1700000060]\<rparr>"
  by (simp add: st_posted_def st_joined_eq transact_def postMessage_def validGroup_def Let_def
      tx_bob_def emit_def checked_add_def max_uint256_def)

lemma reachable_st_alpha: "reachable st_alpha"
  unfolding st_alpha_def by (intro reachable_step reachable_deploy)

lemma reachable_st_joined: "reachable st_joined"
  unfolding st_joined_def by (intro reachable_step reachable_st_alpha)

lemma reachable_st_posted: "reachable st_posted"
  unfolding st_posted_def by (intro reachable_step reachable_st_joined)

lemma st_alpha_views:
  "validGroup st_alpha 0" "\<not> validGroup st_alpha 5"
  "isMember st_alpha 0 alice = Inr True" "isMember st_alpha 0 bob = Inr False"
  "thisAddress st_alpha = contract_address"
  "acl st_alpha (handle (secret (groups st_alpha ! 0))) = {contract_address, alice}"
  by (simp_all add: st_alpha_eq validGroup_def isMember_def alice_neq_bob)

lemma st_joined_views:
  "validGroup st_joined 0"
  "isMember st_joined 0 alice = Inr True" "isMember st_joined 0 bob = Inr True"
  "listMembers st_joined 0 = Inr [alice, bob]"
  "memberCount (groups st_joined ! 0) = 2" "messageCount (groups st_joined ! 0) = 0"
  "creator (groups st_joined ! 0) = alice"
  by (simp_all add: st_joined_eq validGroup_def isMember_def listMembers_def alice_neq_bob)

lemma st_posted_views:
  "validGroup st_posted 0" "getGroupCount st_posted = 1"
  "messageCount (groups st_posted ! 0) = 1"
  "groupMessages st_posted 0 = [\<lparr>sender = bob, cipherText = ''2b3c'', timestamp = 1700000060\<rparr>]"
  "groupMembers st_posted 0 bob" "groupMembers st_posted 0 alice"
  "name (groups st_posted ! 0) = ''Alpha''" "creator (groups st_posted ! 0) = alice"
  "memberCount (groups st_posted ! 0) = 2"
  by (simp_all add: st_posted_eq validGroup_def getGroupCount_def)

lemma join_bob: "joinGroup tx_bob 0 st_alpha = Inr st_joined"
  unfolding st_joined_def
  by (simp add: st_alpha_eq transact_def joinGroup_def validGroup_def Let_def
      tx_bob_def FHE_allow_def emit_def checked_add_def max_uint256_def alice_neq_bob)

lemma post_bob: "postMessage tx_bob 0 ''2b3c'' st_joined = Inr st_posted"
  unfolding st_posted_def
  by (simp add: st_joined_eq transact_def postMessage_def validGroup_def Let_def
      tx_bob_def emit_def checked_add_def max_uint256_def)

lemma st_joined_run:
  "st_joined = snd (run [(tx_alice, CreateGroup ''Alpha''), (tx_bob, JoinGroup 0)]
                     (deploy contract_address))"
  by (simp only: run_Cons_snd run.simps(1) snd_conv st_joined_def st_alpha_def)

section \<open>The claims about the contract\<close>

text \<open>
  C3. \<open>createGroup\<close> succeeds exactly on a non-empty name. Immediately after a successful
  \<open>createGroup(name)\<close> by the sender \<open>A\<close>, \<open>isMember(groupId, A)\<close> is true and \<open>getGroup\<close>
  returns the name, \<open>A\<close> as creator, the block's timestamp, \<open>memberCount = 1\<close>,
  \<open>messageCount = 0\<close> and the minted secret. The value of the secret is the 32-bit random
  draw reduced modulo 1000000, so it lies in \<open>[0, 1000000)\<close>. The secret is minted in this
  call only: after any further run of transactions \<open>getGroupSecret(groupId)\<close> still returns
  the same secret.
\<close>

theorem createGroup_postcondition:
  "(nm \<noteq> [] \<longrightarrow> (\<exists>gid k s'. createGroup e nm s = Inr ((gid, k), s'))) \<and>
   (\<forall>gid k s'. createGroup e nm s = Inr ((gid, k), s') \<longrightarrow>
      isMember s' gid (msg_sender e) = Inr True \<and>
      getGroup s' gid = Inr (nm, msg_sender e, block_timestamp e, 1, 0, k) \<and>
      plain k = rand_draw e mod 1000000 \<and>
      unat (plain k) < 1000000 \<and>
      (\<forall>tr. getGroupSecret (snd (run tr s')) gid = Inr k))"
proof (intro conjI impI allI)
  assume "nm \<noteq> []"
  then show "\<exists>gid k s'. createGroup e nm s = Inr ((gid, k), s')"
    by (rule createGroup_success)
next
  fix gid k s'
  assume c: "createGroup e nm s = Inr ((gid, k), s')"
  note f = createGroup_fields [OF c]
  show "isMember s' gid (msg_sender e) = Inr True"
    using f(2,4) by (simp add: isMember_def validGroup_def)
  show "getGroup s' gid = Inr (nm, msg_sender e, block_timestamp e, 1, 0, k)"
    using f(2,3) by (simp add: getGroup_def validGroup_def)
  show "plain k = rand_draw e mod 1000000" by (rule f(5))
  show "unat (plain k) < 1000000" unfolding f(5) by (rule unat_mod_million)
  fix tr
  have "preserved s' (snd (run tr s')) gid" using f(2) by (rule run_preserved)
  then show "getGroupSecret (snd (run tr s')) gid = Inr k"
    using f(3) by (simp add: preserved_def getGroupSecret_def validGroup_def)
qed

theorem createGroup_postcondition_witness:
  "''Alpha'' \<noteq> [] \<and>
   (\<exists>k s'. createGroup tx_alice ''Alpha'' (deploy contract_address) = Inr ((0, k), s') \<and>
      isMember s' 0 alice = Inr True \<and>
      getGroup s' 0 = Inr (''Alpha'', alice, 1700000000, 1, 0, k) \<and>
      plain k = 456789 \<and> unat (plain k) < 1000000 \<and>
      getGroupSecret (snd (run [(tx_bob, JoinGroup 0), (tx_bob, PostMessage 0 ''2b3c'')] s')) 0 = Inr k)"
proof -
  note t = createGroup_postcondition [of "''Alpha''" tx_alice "deploy contract_address"]
  from t obtain gid k s' where
    c: "createGroup tx_alice ''Alpha'' (deploy contract_address) = Inr ((gid, k), s')"
    by auto
  from createGroup_fields(1) [OF c] have g: "gid = 0" by (simp add: deploy_def)
  from t c have p: "isMember s' gid (msg_sender tx_alice) = Inr True \<and>
      getGroup s' gid = Inr (''Alpha'', msg_sender tx_alice, block_timestamp tx_alice, 1, 0, k) \<and>
      plain k = rand_draw tx_alice mod 1000000 \<and>
      unat (plain k) < 1000000 \<and>
      (\<forall>tr. getGroupSecret (snd (run tr s')) gid = Inr k)"
    by blast
  then have 1: "getGroupSecret
      (snd (run [(tx_bob, JoinGroup 0), (tx_bob, PostMessage 0 ''2b3c'')] s')) 0 = Inr k"
    unfolding g by blast
  from p have 2: "isMember s' 0 alice = Inr True \<and>
      getGroup s' 0 = Inr (''Alpha'', alice, 1700000000, 1, 0, k) \<and>
      plain k = 456789 \<and> unat (plain k) < 1000000"
    unfolding g by (simp add: tx_alice_def)
  from c g 1 2 show ?thesis by blast
qed

text \<open>
  C4. With \<open>FHE.allow\<close> and \<open>FHE.allowThis\<close> adding an address to the access-control list of
  the secret's handle: in every reachable state, every member of an existing group is in
  the list of the group's secret, and so is the contract's own address. The lists are
  extended in the very transaction that extends the membership: a successful
  \<open>createGroup\<close> adds its sender and the contract, a successful \<open>joinGroup\<close> adds its sender.
\<close>

theorem acl_covers_membership:
  "(reachable s \<and> validGroup s g \<longrightarrow>
      (\<forall>a. isMember s g a = Inr True \<longrightarrow> a \<in> acl s (handle (secret (groups s ! g)))) \<and>
      thisAddress s \<in> acl s (handle (secret (groups s ! g)))) \<and>
   (\<forall>gid k s'. createGroup e nm s = Inr ((gid, k), s') \<longrightarrow>
      secret (groups s' ! gid) = k \<and>
      acl s' (handle k) = insert (thisAddress s) (insert (msg_sender e) (acl s (handle k)))) \<and>
   (\<forall>s'. joinGroup e g s = Inr s' \<longrightarrow>
      secret (groups s' ! g) = secret (groups s ! g) \<and>
      acl s' (handle (secret (groups s ! g))) =
        insert (msg_sender e) (acl s (handle (secret (groups s ! g)))))"
proof (intro conjI impI allI)
  assume "reachable s \<and> validGroup s g"
  then have "group_ok s g"
    using reachable_consistent [of s] by (simp add: consistent_def validGroup_def)
  then show "thisAddress s \<in> acl s (handle (secret (groups s ! g)))"
    by (simp add: group_ok_def)
  fix a
  assume "isMember s g a = Inr True"
  then have "groupMembers s g a" by (simp add: isMember_def split: if_splits)
  with \<open>group_ok s g\<close> show "a \<in> acl s (handle (secret (groups s ! g)))"
    by (simp add: group_ok_def)
next
  fix gid k s'
  assume c: "createGroup e nm s = Inr ((gid, k), s')"
  note f = createGroup_fields [OF c]
  show "secret (groups s' ! gid) = k" by (simp add: f(3))
  show "acl s' (handle k) = insert (thisAddress s) (insert (msg_sender e) (acl s (handle k)))"
    by (rule f(6))
next
  fix s'
  assume j: "joinGroup e g s = Inr s'"
  note f = joinGroup_fields [OF j]
  show "secret (groups s' ! g) = secret (groups s ! g)" by (rule f(6))
  show "acl s' (handle (secret (groups s ! g))) =
        insert (msg_sender e) (acl s (handle (secret (groups s ! g))))" by (rule f(7))
qed

theorem acl_covers_membership_witness:
  "reachable st_alpha \<and> validGroup st_alpha 0 \<and> isMember st_alpha 0 alice = Inr True \<and>
   alice \<in> acl st_alpha (handle (secret (groups st_alpha ! 0))) \<and>
   contract_address \<in> acl st_alpha (handle (secret (groups st_alpha ! 0))) \<and>
   (\<exists>gid k s'. createGroup tx_bob ''Beta'' st_alpha = Inr ((gid, k), s') \<and>
      secret (groups s' ! gid) = k \<and> bob \<in> acl s' (handle k) \<and>
      contract_address \<in> acl s' (handle k)) \<and>
   (\<exists>s'. joinGroup tx_bob 0 st_alpha = Inr s' \<and>
      bob \<in> acl s' (handle (secret (groups s' ! 0))))"
proof -
  note t = acl_covers_membership [of st_alpha 0 tx_bob "''Beta''"]
  obtain gid k s' where c: "createGroup tx_bob ''Beta'' st_alpha = Inr ((gid, k), s')"
    using createGroup_success [of "''Beta''" tx_bob st_alpha] by auto
  from t c have "secret (groups s' ! gid) = k \<and>
      acl s' (handle k) = insert (thisAddress st_alpha) (insert (msg_sender tx_bob) (acl st_alpha (handle k)))"
    by blast
  then have 1: "\<exists>gid k s'. createGroup tx_bob ''Beta'' st_alpha = Inr ((gid, k), s') \<and>
      secret (groups s' ! gid) = k \<and> bob \<in> acl s' (handle k) \<and>
      contract_address \<in> acl s' (handle k)"
    using c by (auto simp: tx_bob_def st_alpha_views)
  from t join_bob have "secret (groups st_joined ! 0) = secret (groups st_alpha ! 0) \<and>
      acl st_joined (handle (secret (groups st_alpha ! 0))) =
        insert (msg_sender tx_bob) (acl st_alpha (handle (secret (groups st_alpha ! 0))))"
    by blast
  then have 2: "\<exists>s'. joinGroup tx_bob 0 st_alpha = Inr s' \<and>
      bob \<in> acl s' (handle (secret (groups s' ! 0)))"
    using join_bob by (auto simp: tx_bob_def)
  from t reachable_st_alpha st_alpha_views(1,3)
  have "alice \<in> acl st_alpha (handle (secret (groups st_alpha ! 0))) \<and>
        thisAddress st_alpha \<in> acl st_alpha (handle (secret (groups st_alpha ! 0)))"
    by blast
  with 1 2 show ?thesis
    using reachable_st_alpha st_alpha_views(1,3,5) by simp
qed

text \<open>
  C5. For an existing group, \<open>postMessage\<close> by a non-member fails with "Join first" and
  the transaction leaves the storage, and so \<open>messageCount\<close>, unchanged. In a state that
  the deployed contract reaches by a run with fewer than \<open>2^256 - 1\<close> \<open>postMessage\<close> calls
  (every run a chain can hold), a call by a member with a non-empty \<open>cipherText\<close> succeeds,
  raises \<open>messageCount\<close> by exactly one and appends one message whose sender is the caller
  and whose \<open>cipherText\<close> is the argument.
\<close>

theorem postMessage_behaviour:
  "(validGroup s g \<and> isMember s g (msg_sender e) = Inr False \<longrightarrow>
      postMessage e g ct s = Inl Forbidden \<and>
      transact e (PostMessage g ct) s = (Inl Forbidden, s) \<and>
      messageCount (groups (snd (transact e (PostMessage g ct) s)) ! g) =
        messageCount (groups s ! g)) \<and>
   (s = snd (run tr (deploy self)) \<and> posts tr < max_uint256 \<and>
    validGroup s g \<and> isMember s g (msg_sender e) = Inr True \<and> ct \<noteq> [] \<longrightarrow>
      (\<exists>s'. postMessage e g ct s = Inr s' \<and>
            transact e (PostMessage g ct) s = (Inr RNone, s') \<and>
            messageCount (groups s' ! g) = messageCount (groups s ! g) + 1 \<and>
            groupMessages s' g = groupMessages s g @
              [\<lparr>sender = msg_sender e, cipherText = ct, timestamp = block_timestamp e\<rparr>] \<and>
            sender (last (groupMessages s' g)) = msg_sender e \<and>
            cipherText (last (groupMessages s' g)) = ct))"
proof (intro conjI impI)
  assume a: "validGroup s g \<and> isMember s g (msg_sender e) = Inr False"
  then show f: "postMessage e g ct s = Inl Forbidden"
    by (auto simp: postMessage_def isMember_valid)
  then show t: "transact e (PostMessage g ct) s = (Inl Forbidden, s)"
    by (simp add: transact_def)
  then show "messageCount (groups (snd (transact e (PostMessage g ct) s)) ! g) =
        messageCount (groups s ! g)" by simp
next
  assume a: "s = snd (run tr (deploy self)) \<and> posts tr < max_uint256 \<and>
    validGroup s g \<and> isMember s g (msg_sender e) = Inr True \<and> ct \<noteq> []"
  then have m: "groupMembers s g (msg_sender e)" by (auto simp: isMember_valid)
  from a have "messageCount (groups s ! g) \<le> posts tr"
    using deploy_run_messageCount [of tr self g] by blast
  with a have b: "messageCount (groups s ! g) < max_uint256" by linarith
  with a m obtain s' where p: "postMessage e g ct s = Inr s'"
    using postMessage_success [of s g e ct] by blast
  note f = postMessage_fields [OF p]
  have "transact e (PostMessage g ct) s = (Inr RNone, s')" by (simp add: transact_def p)
  moreover have "sender (last (groupMessages s' g)) = msg_sender e"
    and "cipherText (last (groupMessages s' g)) = ct" by (simp_all add: f(6))
  ultimately show "\<exists>s'. postMessage e g ct s = Inr s' \<and>
            transact e (PostMessage g ct) s = (Inr RNone, s') \<and>
            messageCount (groups s' ! g) = messageCount (groups s ! g) + 1 \<and>
            groupMessages s' g = groupMessages s g @
              [\<lparr>sender = msg_sender e, cipherText = ct, timestamp = block_timestamp e\<rparr>] \<and>
            sender (last (groupMessages s' g)) = msg_sender e \<and>
            cipherText (last (groupMessages s' g)) = ct"
    using p f(5,6) by blast
qed

theorem postMessage_behaviour_witness:
  "validGroup st_alpha 0 \<and> isMember st_alpha 0 (msg_sender tx_bob) = Inr False \<and>
   transact tx_bob (PostMessage 0 ''2b3c'') st_alpha = (Inl Forbidden, st_alpha) \<and>
   messageCount (groups (snd (transact tx_bob (PostMessage 0 ''2b3c'') st_alpha)) ! 0) = 0 \<and>
   st_joined = snd (run [(tx_alice, CreateGroup ''Alpha''), (tx_bob, JoinGroup 0)]
                      (deploy contract_address)) \<and>
   posts [(tx_alice, CreateGroup ''Alpha''), (tx_bob, JoinGroup 0)] < max_uint256 \<and>
   validGroup st_joined 0 \<and> isMember st_joined 0 (msg_sender tx_bob) = Inr True \<and>
   ''2b3c'' \<noteq> [] \<and>
   (\<exists>s'. postMessage tx_bob 0 ''2b3c'' st_joined = Inr s' \<and>
         messageCount (groups s' ! 0) = 1 \<and>
         sender (last (groupMessages s' 0)) = bob \<and>
         cipherText (last (groupMessages s' 0)) = ''2b3c'')"
proof -
  have a: "validGroup st_alpha 0 \<and> isMember st_alpha 0 (msg_sender tx_bob) = Inr False"
    by (simp add: st_alpha_views tx_bob_def)
  have n: "posts [(tx_alice, CreateGroup ''Alpha''), (tx_bob, JoinGroup 0)] < max_uint256"
    by (simp add: posts_def max_uint256_def)
  have b: "validGroup st_joined 0 \<and> isMember st_joined 0 (msg_sender tx_bob) = Inr True \<and>
    ''2b3c'' \<noteq> []"
    by (simp add: st_joined_views tx_bob_def)
  from a postMessage_behaviour [of st_alpha 0 tx_bob "''2b3c''"]
  have 1: "transact tx_bob (PostMessage 0 ''2b3c'') st_alpha = (Inl Forbidden, st_alpha) \<and>
    messageCount (groups (snd (transact tx_bob (PostMessage 0 ''2b3c'') st_alpha)) ! 0) =
      messageCount (groups st_alpha ! 0)"
    by blast
  then have z: "messageCount (groups (snd (transact tx_bob (PostMessage 0 ''2b3c'') st_alpha)) ! 0) = 0"
    by (simp add: st_alpha_eq)
  from st_joined_run n b
    postMessage_behaviour [of st_joined 0 tx_bob "''2b3c''"
      "[(tx_alice, CreateGroup ''Alpha''), (tx_bob, JoinGroup 0)]" contract_address]
  have 2: "\<exists>s'. postMessage tx_bob 0 ''2b3c'' st_joined = Inr s' \<and>
         messageCount (groups s' ! 0) = 1 \<and>
         sender (last (groupMessages s' 0)) = bob \<and>
         cipherText (last (groupMessages s' 0)) = ''2b3c''"
    by (auto simp: st_joined_views tx_bob_def)
  from a 1 z st_joined_run n b 2 show ?thesis by blast
qed

text \<open>
  C6. \<open>joinGroup\<close> fails with "Invalid group" when the group id refers to no group, and
  with "Already joined" when the caller is already a member. A failed \<open>joinGroup\<close>
  transaction leaves the whole storage unchanged. A successful one makes the caller,
  who was not a member, a member, and raises \<open>memberCount\<close> by exactly one. In a reachable
  state a non-member's call on an existing group does succeed: the checked increment of
  \<open>memberCount\<close> cannot overflow there, as the members of a group are distinct addresses.
\<close>

theorem joinGroup_errors_atomic:
  "(\<not> validGroup s g \<longrightarrow> joinGroup e g s = Inl NotFound) \<and>
   (validGroup s g \<and> isMember s g (msg_sender e) = Inr True \<longrightarrow>
      joinGroup e g s = Inl AlreadyMember) \<and>
   (\<forall>err. fst (transact e (JoinGroup g) s) = Inl err \<longrightarrow>
      snd (transact e (JoinGroup g) s) = s) \<and>
   (\<forall>s'. joinGroup e g s = Inr s' \<longrightarrow>
      transact e (JoinGroup g) s = (Inr RNone, s') \<and>
      isMember s g (msg_sender e) = Inr False \<and>
      isMember s' g (msg_sender e) = Inr True \<and>
      memberCount (groups s' ! g) = memberCount (groups s ! g) + 1) \<and>
   (reachable s \<and> validGroup s g \<and> isMember s g (msg_sender e) = Inr False \<longrightarrow>
      (\<exists>s'. joinGroup e g s = Inr s'))"
proof (intro conjI impI allI)
  assume "\<not> validGroup s g"
  then show "joinGroup e g s = Inl NotFound" by (simp add: joinGroup_def)
next
  assume "validGroup s g \<and> isMember s g (msg_sender e) = Inr True"
  then show "joinGroup e g s = Inl AlreadyMember"
    by (auto simp: joinGroup_def isMember_def split: if_splits)
next
  fix err
  assume "fst (transact e (JoinGroup g) s) = Inl err"
  then show "snd (transact e (JoinGroup g) s) = s"
    by (auto simp: transact_def split: sum.splits)
next
  fix s'
  assume j: "joinGroup e g s = Inr s'"
  note f = joinGroup_fields [OF j]
  show "transact e (JoinGroup g) s = (Inr RNone, s')" by (simp add: transact_def j)
  show "isMember s g (msg_sender e) = Inr False" using f(1,2) by (simp add: isMember_def validGroup_def)
  show "isMember s' g (msg_sender e) = Inr True" using f(1,3,4) by (simp add: isMember_def validGroup_def)
  show "memberCount (groups s' ! g) = memberCount (groups s ! g) + 1" by (rule f(5))
next
  assume a: "reachable s \<and> validGroup s g \<and> isMember s g (msg_sender e) = Inr False"
  then have "\<not> groupMembers s g (msg_sender e)" by (auto simp: isMember_valid)
  moreover have "memberCount (groups s ! g) < max_uint256"
    using a by (simp add: reachable_memberCount_bound)
  ultimately show "\<exists>s'. joinGroup e g s = Inr s'"
    using a by (simp add: joinGroup_success)
qed

theorem joinGroup_errors_atomic_witness:
  "\<not> validGroup st_alpha 5 \<and> joinGroup tx_bob 5 st_alpha = Inl NotFound \<and>
   validGroup st_alpha 0 \<and> isMember st_alpha 0 (msg_sender tx_alice) = Inr True \<and>
   joinGroup tx_alice 0 st_alpha = Inl AlreadyMember \<and>
   fst (transact tx_alice (JoinGroup 0) st_alpha) = Inl AlreadyMember \<and>
   snd (transact tx_alice (JoinGroup 0) st_alpha) = st_alpha \<and>
   reachable st_alpha \<and> isMember st_alpha 0 (msg_sender tx_bob) = Inr False \<and>
   joinGroup tx_bob 0 st_alpha = Inr st_joined \<and>
   transact tx_bob (JoinGroup 0) st_alpha = (Inr RNone, st_joined) \<and>
   isMember st_joined 0 (msg_sender tx_bob) = Inr True \<and>
   memberCount (groups st_joined ! 0) = memberCount (groups st_alpha ! 0) + 1"
proof -
  note t1 = joinGroup_errors_atomic [of st_alpha 5 tx_bob]
  note t2 = joinGroup_errors_atomic [of st_alpha 0 tx_alice]
  note t3 = joinGroup_errors_atomic [of st_alpha 0 tx_bob]
  have a: "\<not> validGroup st_alpha 5" by (rule st_alpha_views)
  have b: "validGroup st_alpha 0 \<and> isMember st_alpha 0 (msg_sender tx_alice) = Inr True"
    by (simp add: st_alpha_views tx_alice_def)
  have c: "reachable st_alpha \<and> validGroup st_alpha 0 \<and>
           isMember st_alpha 0 (msg_sender tx_bob) = Inr False"
    by (simp add: st_alpha_views tx_bob_def reachable_st_alpha)
  from t1 a have 1: "joinGroup tx_bob 5 st_alpha = Inl NotFound" by blast
  from t2 b have 2: "joinGroup tx_alice 0 st_alpha = Inl AlreadyMember" by blast
  then have 3: "fst (transact tx_alice (JoinGroup 0) st_alpha) = Inl AlreadyMember"
    by (simp add: transact_def)
  with t2 have 4: "snd (transact tx_alice (JoinGroup 0) st_alpha) = st_alpha" by blast
  from t3 c obtain s' where j: "joinGroup tx_bob 0 st_alpha = Inr s'" by blast
  with join_bob have s': "s' = st_joined" by simp
  from t3 j have "transact tx_bob (JoinGroup 0) st_alpha = (Inr RNone, s') \<and>
      isMember s' 0 (msg_sender tx_bob) = Inr True \<and>
      memberCount (groups s' ! 0) = memberCount (groups st_alpha ! 0) + 1"
    by blast
  with a b c 1 2 3 4 j s' show ?thesis by blast
qed

text \<open>
  C7. Through any run of transactions from any state (so from every reachable one and for
  every single operation), a group that exists keeps existing, its \<open>name\<close>, \<open>creator\<close>,
  \<open>createdAt\<close> and \<open>secret\<close> never change, its \<open>memberCount\<close> and \<open>messageCount\<close> never
  decrease, a member stays a member, and every message already stored stays at its index
  unchanged.
\<close>

theorem state_monotone:
  assumes "validGroup s g"
  shows "validGroup (snd (run tr s)) g \<and>
         name (groups (snd (run tr s)) ! g) = name (groups s ! g) \<and>
         creator (groups (snd (run tr s)) ! g) = creator (groups s ! g) \<and>
         createdAt (groups (snd (run tr s)) ! g) = createdAt (groups s ! g) \<and>
         secret (groups (snd (run tr s)) ! g) = secret (groups s ! g) \<and>
         memberCount (groups s ! g) \<le> memberCount (groups (snd (run tr s)) ! g) \<and>
         messageCount (groups s ! g) \<le> messageCount (groups (snd (run tr s)) ! g) \<and>
         (\<forall>a. groupMembers s g a \<longrightarrow> groupMembers (snd (run tr s)) g a) \<and>
         length (groupMessages s g) \<le> length (groupMessages (snd (run tr s)) g) \<and>
         (\<forall>i < length (groupMessages s g).
            groupMessages (snd (run tr s)) g ! i = groupMessages s g ! i)"
proof -
  from assms have "preserved s (snd (run tr s)) g"
    by (simp add: validGroup_def run_preserved)
  then show ?thesis
    by (auto simp: preserved_def validGroup_def nth_append)
qed

theorem state_monotone_witness:
  "validGroup st_posted 0 \<and>
   validGroup (snd (run [(tx_alice, PostMessage 0 ''ff''), (tx_alice, CreateGroup ''Beta'')] st_posted)) 0 \<and>
   name (groups (snd (run [(tx_alice, PostMessage 0 ''ff''), (tx_alice, CreateGroup ''Beta'')] st_posted)) ! 0) = ''Alpha'' \<and>
   creator (groups (snd (run [(tx_alice, PostMessage 0 ''ff''), (tx_alice, CreateGroup ''Beta'')] st_posted)) ! 0) = alice \<and>
   2 \<le> memberCount (groups (snd (run [(tx_alice, PostMessage 0 ''ff''), (tx_alice, CreateGroup ''Beta'')] st_posted)) ! 0) \<and>
   1 \<le> messageCount (groups (snd (run [(tx_alice, PostMessage 0 ''ff''), (tx_alice, CreateGroup ''Beta'')] st_posted)) ! 0) \<and>
   groupMembers st_posted 0 bob \<and>
   groupMembers (snd (run [(tx_alice, PostMessage 0 ''ff''), (tx_alice, CreateGroup ''Beta'')] st_posted)) 0 bob \<and>
   0 < length (groupMessages st_posted 0) \<and>
   groupMessages (snd (run [(tx_alice, PostMessage 0 ''ff''), (tx_alice, CreateGroup ''Beta'')] st_posted)) 0 ! 0 =
     \<lparr>sender = bob, cipherText = ''2b3c'', timestamp = 1700000060\<rparr>"
  using state_monotone [of st_posted 0
      "[(tx_alice, PostMessage 0 ''ff''), (tx_alice, CreateGroup ''Beta'')]"]
  by (simp add: st_posted_views)

text \<open>
  C8. A transaction that calls a view function leaves the storage unchanged. Each read that
  takes a group id fails with "Invalid group" when the id is not below \<open>getGroupCount()\<close>.
  In a reachable state, for an existing group, \<open>getMessageCount\<close> is the group's
  \<open>messageCount\<close>, \<open>getMessage(groupId, index)\<close> fails with "Invalid message index" when the
  index is not below \<open>messageCount\<close> and otherwise returns the entry of the group's message
  list at this index; and this entry is the index-th message posted: a successful
  \<open>postMessage\<close> stores its message at the index \<open>messageCount\<close> had before the call, and
  leaves what \<open>getMessage\<close> returns at every smaller index as it was.
\<close>

theorem reads_pure_and_checked:
  "(is_view c \<longrightarrow> snd (transact e c s) = s) \<and>
   (\<not> g < getGroupCount s \<longrightarrow>
      getGroup s g = Inl NotFound \<and> getGroupSecret s g = Inl NotFound \<and>
      listMembers s g = Inl NotFound \<and> isMember s g a = Inl NotFound \<and>
      getMessageCount s g = Inl NotFound \<and> getMessage s g i = Inl NotFound) \<and>
   (reachable s \<and> g < getGroupCount s \<longrightarrow>
      getMessageCount s g = Inr (messageCount (groups s ! g)) \<and>
      (\<not> i < messageCount (groups s ! g) \<longrightarrow> getMessage s g i = Inl IndexOutOfRange) \<and>
      (i < messageCount (groups s ! g) \<longrightarrow> getMessage s g i = Inr (groupMessages s g ! i))) \<and>
   (\<forall>s'. reachable s \<and> postMessage e g ct s = Inr s' \<longrightarrow>
      getMessage s' g (messageCount (groups s ! g)) =
        Inr \<lparr>sender = msg_sender e, cipherText = ct, timestamp = block_timestamp e\<rparr> \<and>
      (\<forall>j < messageCount (groups s ! g). getMessage s' g j = getMessage s g j))"
proof (intro conjI impI allI)
  assume "is_view c"
  then show "snd (transact e c s) = s"
    by (cases c) (auto simp: transact_def view_result_def split: sum.splits)
next
  assume n: "\<not> g < getGroupCount s"
  then have v: "\<not> validGroup s g" by (simp add: validGroup_def getGroupCount_def)
  show "getGroup s g = Inl NotFound" using v by (simp add: getGroup_def)
  show "getGroupSecret s g = Inl NotFound" using v by (simp add: getGroupSecret_def)
  show "listMembers s g = Inl NotFound" using v by (simp add: listMembers_def)
  show "isMember s g a = Inl NotFound" using v by (simp add: isMember_def)
  show "getMessageCount s g = Inl NotFound" using v by (simp add: getMessageCount_def)
  show "getMessage s g i = Inl NotFound" using v by (simp add: getMessage_def)
next
  assume a: "reachable s \<and> g < getGroupCount s"
  then have v: "validGroup s g" by (simp add: validGroup_def getGroupCount_def)
  with a have m: "messageCount (groups s ! g) = length (groupMessages s g)"
    by (simp add: reachable_messageCount)
  show "getMessageCount s g = Inr (messageCount (groups s ! g))"
    using v m by (simp add: getMessageCount_def)
  show "getMessage s g i = Inl IndexOutOfRange" if "\<not> i < messageCount (groups s ! g)"
    using that v m by (simp add: getMessage_def)
  show "getMessage s g i = Inr (groupMessages s g ! i)" if "i < messageCount (groups s ! g)"
    using that v m by (simp add: getMessage_def)
next
  fix s'
  assume a: "reachable s \<and> postMessage e g ct s = Inr s'"
  then have p: "postMessage e g ct s = Inr s'" by simp
  note f = postMessage_fields [OF p]
  have v: "validGroup s g" and v': "validGroup s' g" using f(1,4) by (simp_all add: validGroup_def)
  have m: "messageCount (groups s ! g) = length (groupMessages s g)"
    using a v by (simp add: reachable_messageCount)
  show "getMessage s' g (messageCount (groups s ! g)) =
        Inr \<lparr>sender = msg_sender e, cipherText = ct, timestamp = block_timestamp e\<rparr>"
    using v' m f(6) by (simp add: getMessage_def)
  fix j
  assume "j < messageCount (groups s ! g)"
  then show "getMessage s' g j = getMessage s g j"
    using v v' m f(6) by (simp add: getMessage_def nth_append)
qed

theorem reads_pure_and_checked_witness:
  "is_view (GetMessage 0 0) \<and> snd (transact tx_bob (GetMessage 0 0) st_posted) = st_posted \<and>
   \<not> 3 < getGroupCount st_posted \<and> getGroup st_posted 3 = Inl NotFound \<and>
   getMessage st_posted 3 0 = Inl NotFound \<and>
   reachable st_posted \<and> 0 < getGroupCount st_posted \<and>
   \<not> 1 < messageCount (groups st_posted ! 0) \<and> getMessage st_posted 0 1 = Inl IndexOutOfRange \<and>
   0 < messageCount (groups st_posted ! 0) \<and>
   getMessage st_posted 0 0 = Inr \<lparr>sender = bob, cipherText = ''2b3c'', timestamp = 1700000060\<rparr> \<and>
   (\<exists>s'. postMessage tx_alice 0 ''ff'' st_posted = Inr s' \<and>
      getMessage s' 0 1 = Inr \<lparr>sender = alice, cipherText = ''ff'', timestamp = 1700000000\<rparr> \<and>
      getMessage s' 0 0 = getMessage st_posted 0 0)"
proof -
  note t0 = reads_pure_and_checked [of "GetMessage 0 0" tx_bob st_posted 3 alice 0 "''ff''"]
  note t1 = reads_pure_and_checked [of "GetMessage 0 0" tx_alice st_posted 0 alice 1 "''ff''"]
  note t2 = reads_pure_and_checked [of "GetMessage 0 0" tx_alice st_posted 0 alice 0 "''ff''"]
  have v: "is_view (GetMessage 0 0)" by simp
  with t0 have 1: "snd (transact tx_bob (GetMessage 0 0) st_posted) = st_posted" by blast
  have n: "\<not> 3 < getGroupCount st_posted" by (simp add: st_posted_views)
  with t0 have 2: "getGroup st_posted 3 = Inl NotFound \<and> getMessage st_posted 3 0 = Inl NotFound"
    by blast
  have r: "reachable st_posted \<and> 0 < getGroupCount st_posted"
    by (simp add: st_posted_views reachable_st_posted)
  have i1: "\<not> 1 < messageCount (groups st_posted ! 0)" and i0: "0 < messageCount (groups st_posted ! 0)"
    by (simp_all add: st_posted_views)
  from t1 r i1 have 3: "getMessage st_posted 0 1 = Inl IndexOutOfRange" by blast
  from t2 r i0 have "getMessage st_posted 0 0 = Inr (groupMessages st_posted 0 ! 0)" by blast
  then have 4: "getMessage st_posted 0 0 =
      Inr \<lparr>sender = bob, cipherText = ''2b3c'', timestamp = 1700000060\<rparr>"
    by (simp add: st_posted_views)
  obtain s' where p: "postMessage tx_alice 0 ''ff'' st_posted = Inr s'"
    using postMessage_success [of st_posted 0 tx_alice "''ff''"]
    by (auto simp: st_posted_views tx_alice_def max_uint256_def)
  from t2 r p have "getMessage s' 0 (messageCount (groups st_posted ! 0)) =
        Inr \<lparr>sender = msg_sender tx_alice, cipherText = ''ff'', timestamp = block_timestamp tx_alice\<rparr> \<and>
      (\<forall>j < messageCount (groups st_posted ! 0). getMessage s' 0 j = getMessage st_posted 0 j)"
    by blast
  then have 5: "getMessage s' 0 1 = Inr \<lparr>sender = alice, cipherText = ''ff'', timestamp = 1700000000\<rparr> \<and>
      getMessage s' 0 0 = getMessage st_posted 0 0"
    by (simp add: st_posted_views tx_alice_def)
  from v 1 n 2 r i1 i0 3 4 p 5 show ?thesis by blast
qed

text \<open>
  C9. In \<open>postMessage\<close> an unknown group id fails with "Invalid group" whatever the caller
  and the \<open>cipherText\<close>; for an existing group a non-member fails with "Join first"
  whatever the \<open>cipherText\<close>, in particular for the empty one; and "Message required" is
  returned only to a member of an existing group who posts an empty \<open>cipherText\<close>.
\<close>

theorem postMessage_precedence:
  "(\<not> validGroup s g \<longrightarrow> postMessage e g ct s = Inl NotFound) \<and>
   (validGroup s g \<and> isMember s g (msg_sender e) = Inr False \<longrightarrow>
      postMessage e g ct s = Inl Forbidden) \<and>
   (validGroup s g \<and> isMember s g (msg_sender e) = Inr False \<longrightarrow>
      postMessage e g [] s = Inl Forbidden) \<and>
   (postMessage e g ct s = Inl InvalidArgument_message \<longrightarrow>
      validGroup s g \<and> isMember s g (msg_sender e) = Inr True \<and> ct = [])"
  by (auto simp: postMessage_def isMember_def Let_def checked_add_def
      split: if_splits sum.splits)

theorem postMessage_precedence_witness:
  "\<not> validGroup st_alpha 5 \<and> postMessage tx_alice 5 [] st_alpha = Inl NotFound \<and>
   validGroup st_alpha 0 \<and> isMember st_alpha 0 (msg_sender tx_bob) = Inr False \<and>
   postMessage tx_bob 0 ''2b3c'' st_alpha = Inl Forbidden \<and>
   postMessage tx_bob 0 [] st_alpha = Inl Forbidden \<and>
   postMessage tx_alice 0 [] st_alpha = Inl InvalidArgument_message \<and>
   isMember st_alpha 0 (msg_sender tx_alice) = Inr True"
proof -
  note t1 = postMessage_precedence [of st_alpha 5 tx_alice "[]"]
  note t2 = postMessage_precedence [of st_alpha 0 tx_bob "''2b3c''"]
  note t3 = postMessage_precedence [of st_alpha 0 tx_alice "[]"]
  have a: "\<not> validGroup st_alpha 5" by (rule st_alpha_views)
  have b: "validGroup st_alpha 0 \<and> isMember st_alpha 0 (msg_sender tx_bob) = Inr False"
    by (simp add: st_alpha_views tx_bob_def)
  have c: "postMessage tx_alice 0 [] st_alpha = Inl InvalidArgument_message"
    by (simp add: postMessage_def st_alpha_eq validGroup_def tx_alice_def)
  from t1 a have 1: "postMessage tx_alice 5 [] st_alpha = Inl NotFound" by blast
  from t2 b have 2: "postMessage tx_bob 0 ''2b3c'' st_alpha = Inl Forbidden \<and>
    postMessage tx_bob 0 [] st_alpha = Inl Forbidden" by blast
  from t3 c have 3: "isMember st_alpha 0 (msg_sender tx_alice) = Inr True" by blast
  from a b c 1 2 3 show ?thesis by blast
qed

text \<open>
  C10. In every reachable state and for every existing group, \<open>listMembers\<close> returns a
  list whose length is \<open>memberCount\<close>, that has no duplicates, whose first element is the
  group's creator, and that contains an address if and only if \<open>isMember\<close> returns true
  for it.
\<close>

theorem member_list_consistent:
  assumes "reachable s" and "validGroup s g"
  shows "\<exists>ms. listMembers s g = Inr ms \<and>
           memberCount (groups s ! g) = length ms \<and>
           distinct ms \<and> ms \<noteq> [] \<and> hd ms = creator (groups s ! g) \<and>
           (\<forall>a. a \<in> set ms \<longleftrightarrow> isMember s g a = Inr True)"
proof -
  from assms have ok: "group_ok s g"
    using reachable_consistent [of s] by (simp add: consistent_def validGroup_def)
  then show ?thesis
    using assms(2) by (simp add: listMembers_def isMember_def group_ok_def)
qed

theorem member_list_consistent_witness:
  "reachable st_joined \<and> validGroup st_joined 0 \<and>
   listMembers st_joined 0 = Inr [alice, bob] \<and>
   memberCount (groups st_joined ! 0) = length [alice, bob] \<and>
   distinct [alice, bob] \<and> hd [alice, bob] = creator (groups st_joined ! 0) \<and>
   bob \<in> set [alice, bob] \<and> isMember st_joined 0 bob = Inr True"
proof -
  from member_list_consistent [OF reachable_st_joined st_joined_views(1)]
  obtain ms where m: "listMembers st_joined 0 = Inr ms"
    and p: "memberCount (groups st_joined ! 0) = length ms \<and>
           distinct ms \<and> ms \<noteq> [] \<and> hd ms = creator (groups st_joined ! 0) \<and>
           (\<forall>a. a \<in> set ms \<longleftrightarrow> isMember st_joined 0 a = Inr True)"
    by blast
  from m have ms: "ms = [alice, bob]" by (simp add: st_joined_views)
  have "bob \<in> set [alice, bob]" by simp
  with p ms have "isMember st_joined 0 bob = Inr True" by blast
  with p ms show ?thesis
    using reachable_st_joined st_joined_views(1,4) by simp
qed

section \<open>Properties of the cipher\<close>

subsection \<open>UTF-8 and UTF-16\<close>

lemma utf8_one:
  assumes "c < 0x80"
  shows "utf8_decode 0 0 0 0x80 0xBF (utf8_encode c @ bs) = c # utf8_decode 0 0 0 0x80 0xBF bs"
  using assms by (simp add: utf8_encode_def)

lemma lead2_mod: "q < 32 \<Longrightarrow> (0xC0 + q) mod 0x20 = (q::nat)"
  using mod_mult_self4 [of 32 6 q] by simp

lemma lead3_mod: "q < 16 \<Longrightarrow> (0xE0 + q) mod 0x10 = (q::nat)"
  using mod_mult_self4 [of 16 14 q] by simp

lemma lead4_mod: "q < 8 \<Longrightarrow> (0xF0 + q) mod 0x8 = (q::nat)"
  using mod_mult_self4 [of 8 30 q] by simp

lemma trail_mod: "(0x80 + r mod 0x40) mod 0x40 = (r::nat) mod 0x40"
  using mod_mult_self4 [of 64 2 "r mod 64"] by simp

lemma join_low6: "(c::nat) div 0x40 * 0x40 + c mod 0x40 = c"
  by simp

lemma join_mid6: "(c::nat) div 0x1000 * 0x40 + c div 0x40 mod 0x40 = c div 0x40"
proof -
  have "c div 0x1000 = c div 0x40 div 0x40" by (simp add: div_mult2_eq [symmetric])
  then show ?thesis by simp
qed

lemma join_high6: "(c::nat) div 0x40000 * 0x40 + c div 0x1000 mod 0x40 = c div 0x1000"
proof -
  have "c div 0x40000 = c div 0x1000 div 0x40" by (simp add: div_mult2_eq [symmetric])
  then show ?thesis by simp
qed

lemma mod64_of_div: "(x::nat) div 0x40 = k \<Longrightarrow> x mod 0x40 = x - 0x40 * k"
  using mult_div_mod_eq [of "0x40" x] by linarith

lemma utf8_two:
  assumes "0x80 \<le> c" "c < 0x800"
  shows "utf8_decode 0 0 0 0x80 0xBF (utf8_encode c @ bs) = c # utf8_decode 0 0 0 0x80 0xBF bs"
proof -
  define q where "q = c div 0x40"
  define b2 where "b2 = 0x80 + c mod 0x40"
  have e: "utf8_encode c = [0xC0 + q, b2]"
    using assms by (simp add: utf8_encode_def q_def b2_def)
  have q: "2 \<le> q" "q < 32" using assms unfolding q_def by linarith+
  have r1: "\<not> 0xC0 + q \<le> 0x7F" "0xC2 \<le> 0xC0 + q" "0xC0 + q \<le> 0xDF"
    using q by linarith+
  have r2: "0x80 \<le> b2" "b2 \<le> 0xBF" unfolding b2_def by linarith+
  have v: "q * 0x40 + b2 mod 0x40 = c"
    unfolding b2_def q_def trail_mod by (rule join_low6)
  show ?thesis
    unfolding e using r1 r2 q(2) by (simp add: lead2_mod v)
qed

lemma utf8_three:
  assumes "0x800 \<le> c" "c < 0x10000" "\<not> (0xD800 \<le> c \<and> c \<le> 0xDFFF)"
  shows "utf8_decode 0 0 0 0x80 0xBF (utf8_encode c @ bs) = c # utf8_decode 0 0 0 0x80 0xBF bs"
proof -
  define q where "q = c div 0x1000"
  define b2 where "b2 = 0x80 + c div 0x40 mod 0x40"
  define b3 where "b3 = 0x80 + c mod 0x40"
  have e: "utf8_encode c = [0xE0 + q, b2, b3]"
    using assms by (simp add: utf8_encode_def q_def b2_def b3_def)
  have q: "q < 16" using assms unfolding q_def by linarith
  have r1: "\<not> 0xE0 + q \<le> 0x7F" "\<not> (0xC2 \<le> 0xE0 + q \<and> 0xE0 + q \<le> 0xDF)"
    "0xE0 \<le> 0xE0 + q" "0xE0 + q \<le> 0xEF"
    using q by linarith+
  have qq: "q = c div 0x40 div 0x40"
    unfolding q_def by (simp add: div_mult2_eq [symmetric])
  have lo: "(if 0xE0 + q = 0xE0 then 0xA0 else 0x80) \<le> b2"
  proof (cases "q = 0")
    case True
    then have "c div 0x40 mod 0x40 = c div 0x40 - 0x40 * 0"
      unfolding qq by (rule mod64_of_div)
    moreover have "0x20 \<le> c div 0x40" using assms(1) by linarith
    ultimately have "0x20 \<le> c div 0x40 mod 0x40" by simp
    with True show ?thesis by (simp add: b2_def)
  next
    case False
    then show ?thesis by (simp add: b2_def)
  qed
  have hi: "b2 \<le> (if 0xE0 + q = 0xED then 0x9F else 0xBF)"
  proof (cases "q = 13")
    case True
    then have "c div 0x40 mod 0x40 = c div 0x40 - 0x40 * 13"
      unfolding qq by (rule mod64_of_div)
    moreover have "c < 0xD800" using True assms(3) unfolding q_def by linarith
    then have "c div 0x40 < 0x360" by linarith
    ultimately have "c div 0x40 mod 0x40 < 0x20" by linarith
    with True show ?thesis by (simp add: b2_def)
  next
    case False
    have "c div 0x40 mod 0x40 < 0x40" by simp
    with False show ?thesis unfolding b2_def by simp
  qed
  have r3: "0x80 \<le> b3" "b3 \<le> 0xBF" unfolding b3_def by linarith+
  have v2: "q * 0x40 + b2 mod 0x40 = c div 0x40"
    unfolding b2_def q_def trail_mod by (rule join_mid6)
  have v3: "c div 0x40 * 0x40 + b3 mod 0x40 = c"
    unfolding b3_def trail_mod by (rule join_low6)
  show ?thesis
    unfolding e using r1 lo hi r3 q by (simp add: lead3_mod v2 v3 split del: if_split)
qed

lemma utf8_four:
  assumes "0x10000 \<le> c" "c < 0x110000"
  shows "utf8_decode 0 0 0 0x80 0xBF (utf8_encode c @ bs) = c # utf8_decode 0 0 0 0x80 0xBF bs"
proof -
  define q where "q = c div 0x40000"
  define b2 where "b2 = 0x80 + c div 0x1000 mod 0x40"
  define b3 where "b3 = 0x80 + c div 0x40 mod 0x40"
  define b4 where "b4 = 0x80 + c mod 0x40"
  have e: "utf8_encode c = [0xF0 + q, b2, b3, b4]"
    using assms by (simp add: utf8_encode_def q_def b2_def b3_def b4_def)
  have q: "q < 8" "q \<le> 4" using assms unfolding q_def by linarith+
  have r1: "\<not> 0xF0 + q \<le> 0x7F" "\<not> (0xC2 \<le> 0xF0 + q \<and> 0xF0 + q \<le> 0xDF)"
    "\<not> (0xE0 \<le> 0xF0 + q \<and> 0xF0 + q \<le> 0xEF)" "0xF0 \<le> 0xF0 + q" "0xF0 + q \<le> 0xF4"
    using q by linarith+
  have qq: "q = c div 0x1000 div 0x40"
    unfolding q_def by (simp add: div_mult2_eq [symmetric])
  have lo: "(if 0xF0 + q = 0xF0 then 0x90 else 0x80) \<le> b2"
  proof (cases "q = 0")
    case True
    then have "c div 0x1000 mod 0x40 = c div 0x1000 - 0x40 * 0"
      unfolding qq by (rule mod64_of_div)
    moreover have "0x10 \<le> c div 0x1000" using assms(1) by linarith
    ultimately have "0x10 \<le> c div 0x1000 mod 0x40" by simp
    with True show ?thesis by (simp add: b2_def)
  next
    case False
    then show ?thesis by (simp add: b2_def)
  qed
  have hi: "b2 \<le> (if 0xF0 + q = 0xF4 then 0x8F else 0xBF)"
  proof (cases "q = 4")
    case True
    then have "c div 0x1000 mod 0x40 = c div 0x1000 - 0x40 * 4"
      unfolding qq by (rule mod64_of_div)
    moreover have "c div 0x1000 < 0x110" using assms(2) by linarith
    ultimately have "c div 0x1000 mod 0x40 < 0x10" by linarith
    with True show ?thesis by (simp add: b2_def)
  next
    case False
    have "c div 0x1000 mod 0x40 < 0x40" by simp
    with False show ?thesis unfolding b2_def by simp
  qed
  have r3: "0x80 \<le> b3" "b3 \<le> 0xBF" unfolding b3_def by linarith+
  have r4: "0x80 \<le> b4" "b4 \<le> 0xBF" unfolding b4_def by linarith+
  have v2: "q * 0x40 + b2 mod 0x40 = c div 0x1000"
    unfolding b2_def q_def trail_mod by (rule join_high6)
  have v3: "c div 0x1000 * 0x40 + b3 mod 0x40 = c div 0x40"
    unfolding b3_def trail_mod by (rule join_mid6)
  have v4: "c div 0x40 * 0x40 + b4 mod 0x40 = c"
    unfolding b4_def trail_mod by (rule join_low6)
  show ?thesis
    unfolding e using r1 lo hi r3 r4 q(1) by (simp add: lead4_mod v2 v3 v4 split del: if_split)
qed

lemma utf8_decode_encode:
  assumes "is_scalar c"
  shows "utf8_decode 0 0 0 0x80 0xBF (utf8_encode c @ bs) = c # utf8_decode 0 0 0 0x80 0xBF bs"
proof -
  consider "c < 0x80" | "0x80 \<le> c" "c < 0x800" | "0x800 \<le> c" "c < 0x10000"
    | "0x10000 \<le> c" by linarith
  then show ?thesis
  proof cases
    case 1
    then show ?thesis by (rule utf8_one)
  next
    case 2
    then show ?thesis by (rule utf8_two)
  next
    case 3
    then show ?thesis using assms by (intro utf8_three) (simp_all add: is_scalar_def)
  next
    case 4
    then show ?thesis using assms by (intro utf8_four) (simp_all add: is_scalar_def)
  qed
qed

lemma utf8_decode_encode_all:
  "list_all is_scalar cs \<Longrightarrow>
     utf8_decode 0 0 0 0x80 0xBF (concat (map utf8_encode cs)) = cs"
  by (induction cs) (simp_all add: utf8_decode_encode)

lemma utf8_encode_byte: "is_scalar c \<Longrightarrow> b \<in> set (utf8_encode c) \<Longrightarrow> b < 256"
  unfolding utf8_encode_def is_scalar_def
  by (auto split: if_splits)

lemma utf16_to_scalars_scalar:
  "\<forall>u \<in> set us. u < 0x10000 \<Longrightarrow> list_all is_scalar (utf16_to_scalars us)"
proof (induction us rule: utf16_to_scalars.induct)
  case 1
  then show ?case by simp
next
  case (2 u)
  then show ?case
    by (auto simp: is_scalar_def is_high_surrogate_def is_low_surrogate_def)
next
  case (3 u v us)
  then show ?case
    by (auto simp: is_scalar_def is_high_surrogate_def is_low_surrogate_def)
qed

lemma utf16_pair:
  assumes "is_high_surrogate u" "is_low_surrogate v"
  shows "utf16_encode (0x10000 + (u - 0xD800) * 0x400 + (v - 0xDC00)) = [u, v]"
proof -
  define a where "a = u - 0xD800"
  define b where "b = v - 0xDC00"
  have u: "u = 0xD800 + a" and v: "v = 0xDC00 + b" and b: "b < 0x400"
    using assms unfolding a_def b_def is_high_surrogate_def is_low_surrogate_def
    by linarith+
  have "(a * 0x400 + b) div 0x400 = a" "(a * 0x400 + b) mod 0x400 = b"
    using b by simp_all
  then show ?thesis
    by (simp add: utf16_encode_def a_def [symmetric] b_def [symmetric] u v)
qed

lemma utf16_bmp: "c < 0x10000 \<Longrightarrow> utf16_encode c = [c]"
  by (simp add: utf16_encode_def)

lemma utf16_round_trip:
  "well_formed_utf16 us \<Longrightarrow> \<forall>u \<in> set us. u < 0x10000 \<Longrightarrow>
     concat (map utf16_encode (utf16_to_scalars us)) = us"
proof (induction us rule: utf16_to_scalars.induct)
  case 1
  then show ?case by simp
next
  case (2 u)
  then show ?case by (simp add: utf16_bmp)
next
  case (3 u v us)
  show ?case
  proof (cases "is_high_surrogate u")
    case True
    with "3.prems" have l: "is_low_surrogate v" and w: "well_formed_utf16 us" by simp_all
    from "3.prems" have "\<forall>u \<in> set us. u < 0x10000" by simp
    with "3.IH" True l w have "concat (map utf16_encode (utf16_to_scalars us)) = us" by simp
    moreover have "utf16_to_scalars (u # v # us) =
        (0x10000 + (u - 0xD800) * 0x400 + (v - 0xDC00)) # utf16_to_scalars us"
      using True l by simp
    ultimately show ?thesis using True l by (simp only: list.map concat.simps utf16_pair) simp
  next
    case False
    with "3.prems" have nl: "\<not> is_low_surrogate u" and w: "well_formed_utf16 (v # us)"
      by simp_all
    from "3.prems" have "\<forall>u \<in> set (v # us). u < 0x10000" and u: "u < 0x10000" by simp_all
    with "3.IH" False nl w have "concat (map utf16_encode (utf16_to_scalars (v # us))) = v # us"
      by simp
    with False nl u show ?thesis by (simp add: utf16_bmp)
  qed
qed

lemma strip_bom_scalars:
  assumes "us = [] \<or> hd us \<noteq> 0xFEFF"
  shows "strip_bom (utf16_to_scalars us) = utf16_to_scalars us"
proof (cases us rule: utf16_to_scalars.cases)
  case 1
  then show ?thesis by (simp add: strip_bom_def)
next
  case (2 u)
  with assms show ?thesis by (simp add: strip_bom_def)
next
  case (3 u v vs)
  with assms show ?thesis by (simp add: strip_bom_def)
qed

subsection \<open>Bytes, hexadecimal digits and the key\<close>

lemma xor_byte: "ToUint8 (js_xor (byte_number a) (byte_number k)) = a XOR k"
proof -
  have "word_of_int (sint (word_of_int (uint a) XOR word_of_int (uint k) :: 32 word)) = (a XOR k :: 8 word)"
    by (rule bit_word_eqI) (auto simp: bit_simps)
  then show ?thesis by (simp add: ToUint8_def js_xor_def byte_number_def ToInt32_def)
qed

lemma unat_hex_digit:
  assumes "d < 16"
  shows "unat (hex_digit d) = (if d < 10 then 0x30 + d else 0x57 + d)"
proof -
  have u: "unat (of_nat n :: 16 word) = n" if "n < 0x10000" for n
    using that by (simp add: unat_of_nat)
  show ?thesis
  proof (cases "d < 10")
    case True
    then have "hex_digit d = of_nat (0x30 + d)" by (simp only: hex_digit_def if_True)
    moreover have "0x30 + d < 0x10000" using True by linarith
    ultimately show ?thesis using True by (simp only: u if_True)
  next
    case False
    then have "hex_digit d = of_nat (0x61 + (d - 10))" by (simp only: hex_digit_def if_False)
    moreover have "0x61 + (d - 10) < 0x10000" using assms by linarith
    moreover have "0x61 + (d - 10) = 0x57 + d" using False by linarith
    ultimately show ?thesis using False by (simp only: u if_False)
  qed
qed

lemma hex_digit_facts:
  assumes "d < 16"
  shows "\<not> is_line_terminator (hex_digit d)" and "\<not> is_white_space (hex_digit d)"
    and "unat (hex_digit d) \<noteq> 0x2D" and "unat (hex_digit d) \<noteq> 0x2B"
    and "unat (hex_digit d) \<noteq> 0x78" and "unat (hex_digit d) \<noteq> 0x58"
    and "hex_value (hex_digit d) = Some d"
  using assms
  by (simp_all add: unat_hex_digit is_line_terminator_def is_white_space_def hex_value_def)

lemma toString16_byte:
  assumes "n < 256"
  shows "padStart2 (toString16 n) = [hex_digit (n div 16), hex_digit (n mod 16)]"
proof (cases "n < 16")
  case True
  then show ?thesis by (simp add: padStart2_def hex_digit_def toString16.simps [of n])
next
  case False
  with assms have "n div 16 < 16" by linarith
  then have "toString16 (n div 16) = [hex_digit (n div 16)]"
    by (simp add: toString16.simps [of "n div 16"])
  with False have "toString16 n = [hex_digit (n div 16), hex_digit (n mod 16)]"
    using toString16.simps [of n] by simp
  then show ?thesis by (simp add: padStart2_def)
qed

lemma parseInt16_pair:
  assumes "a < 16" "b < 16"
  shows "parseInt16 [hex_digit a, hex_digit b] = Some (int (16 * a + b))"
  using hex_digit_facts [OF assms(1)] hex_digit_facts [OF assms(2)]
  by (simp add: parseInt16_def strip_sign_def strip_prefix_0x_def)

lemma unat_byte: "unat (v :: 8 word) < 256"
proof -
  have "unat v < 2 ^ LENGTH(8)" by (rule unsigned_less)
  then show ?thesis by simp
qed

lemma padStart2_byte: "padStart2 (toString16 (unat (v :: 8 word))) = hex_byte v"
  unfolding hex_byte_def using unat_byte by (rule toString16_byte)

lemma parseInt16_hex_byte: "parseInt16 (hex_byte v) = byte_number v"
proof -
  have "unat v div 16 < 16" "unat v mod 16 < 16" using unat_byte [of v] by linarith+
  then have "parseInt16 (hex_byte v) = Some (int (16 * (unat v div 16) + unat v mod 16))"
    unfolding hex_byte_def by (rule parseInt16_pair)
  then show ?thesis by (simp add: byte_number_def)
qed

lemma match_pairs_hex: "match_pairs (concat (map hex_byte vs)) = map hex_byte vs"
proof (induction vs)
  case Nil
  then show ?case by simp
next
  case (Cons v vs)
  have "unat v div 16 < 16" "unat v mod 16 < 16" using unat_byte [of v] by linarith+
  then have "\<not> is_line_terminator (hex_digit (unat v div 16))"
    "\<not> is_line_terminator (hex_digit (unat v mod 16))"
    by (simp_all add: hex_digit_facts)
  with Cons show ?case by (simp add: hex_byte_def)
qed

lemma hex_fun: "(\<lambda>val. padStart2 (toString16 (unat val))) = hex_byte"
  by (rule ext) (rule padStart2_byte)

lemma hex_round_trip: "map parseInt16 (match_pairs (concat (map hex_byte vs))) = map byte_number vs"
  by (simp add: match_pairs_hex parseInt16_hex_byte)

lemma hex_empty: "concat (map hex_byte vs) = [] \<longleftrightarrow> vs = []"
  by (cases vs) (simp_all add: hex_byte_def)

lemma xor_twice:
  "map ToUint8
     (map (\<lambda>(idx, byte). js_xor byte (byte_number (K ! (idx mod length K))))
        (enumerate n (map byte_number
           (map (\<lambda>(idx, byte). ToUint8 (js_xor (byte_number byte) (byte_number (K ! (idx mod length K)))))
              (enumerate n bs))))) = bs"
proof (induction bs arbitrary: n)
  case Nil
  then show ?case by simp
next
  case (Cons b bs)
  have "(b XOR K ! (n mod length K)) XOR K ! (n mod length K) = b"
    by (simp add: xor.assoc)
  with Cons [of "Suc n"] show ?case by (simp add: xor_byte)
qed

lemma decode_empty: "TextDecoder_decode [] = []"
  by (simp add: TextDecoder_decode_def strip_bom_def)

lemma unat_of_nat_byte: "n < 256 \<Longrightarrow> unat (of_nat n :: 8 word) = n"
  by (simp add: unat_of_nat)

lemma keyBytes_big_endian:
  assumes "0 \<le> k" and "k < 2 ^ 32"
  shows "length (keyBytes k) = 4"
    and "uint (keyBytes k ! 0) * 2 ^ 24 + uint (keyBytes k ! 1) * 2 ^ 16 +
         uint (keyBytes k ! 2) * 2 ^ 8 + uint (keyBytes k ! 3) = k"
proof -
  define n where "n = nat (k mod 2 ^ 32)"
  have nk: "int n = k" using assms by (simp add: n_def)
  have "int n < 2 ^ 32" using assms(2) by (simp only: nk)
  then have n: "n < 2 ^ 32" by (simp only: of_nat_less_numeral_power_cancel_iff)
  define a where "a = n div 2 ^ 24"
  define b where "b = n div 2 ^ 16 mod 256"
  define c where "c = n div 2 ^ 8 mod 256"
  define d where "d = n mod 256"
  have kb: "keyBytes k = [of_nat a, of_nat b, of_nat c, of_nat d]"
    by (simp add: keyBytes_def Let_def n_def a_def b_def c_def d_def)
  show "length (keyBytes k) = 4" by (simp add: kb)
  have lt: "a < 256" "b < 256" "c < 256" "d < 256"
    using n unfolding a_def b_def c_def d_def by simp_all
  define p where "p = n div 256"
  define q where "q = p div 256"
  have e16: "n div 2 ^ 16 = q"
    using div_mult2_eq [of n 256 256] by (simp add: p_def q_def)
  have e24: "n div 2 ^ 24 = q div 256"
    using div_mult2_eq [of n 65536 256] e16 by simp
  have s1: "n = 256 * p + d" unfolding d_def p_def by simp
  have s2: "p = 256 * q + c" unfolding c_def q_def p_def by simp
  have s3: "q = 256 * a + b" unfolding a_def b_def e16 e24 by simp
  have "n = a * 2 ^ 24 + b * 2 ^ 16 + c * 2 ^ 8 + d"
    using s1 s2 s3 by simp
  then have keq: "int a * 2 ^ 24 + int b * 2 ^ 16 + int c * 2 ^ 8 + int d = k"
    using nk by simp
  have u: "uint (of_nat x :: 8 word) = int x" if "x < 256" for x
    using that unat_of_nat_byte [of x] by (simp add: uint_nat)
  have "uint (keyBytes k ! 0) * 2 ^ 24 + uint (keyBytes k ! 1) * 2 ^ 16 +
         uint (keyBytes k ! 2) * 2 ^ 8 + uint (keyBytes k ! 3) =
        int a * 2 ^ 24 + int b * 2 ^ 16 + int c * 2 ^ 8 + int d"
    unfolding kb using lt by (simp add: u)
  then show "uint (keyBytes k ! 0) * 2 ^ 24 + uint (keyBytes k ! 1) * 2 ^ 16 +
         uint (keyBytes k ! 2) * 2 ^ 8 + uint (keyBytes k ! 3) = k"
    by (simp only: keq)
qed

lemma keyBytes_zero_padded:
  assumes "0 \<le> k" and "k < 1000000"
  shows "keyBytes k ! 0 = 0"
proof -
  have "nat (k mod 2 ^ 32) < 2 ^ 24" using assms by simp
  then show ?thesis by (simp add: keyBytes_def Let_def)
qed

subsection \<open>Deciphering what was enciphered\<close>

lemma decodeMessage_nonempty:
  "c \<noteq> [] \<Longrightarrow> decodeMessage c k =
     TextDecoder_decode (map ToUint8
       (map (\<lambda>(idx, byte). js_xor byte (byte_number (keyBytes k ! (idx mod length (keyBytes k)))))
          (enumerate 0 (map parseInt16 (match_pairs c)))))"
  by (simp add: decodeMessage_def Let_def)

lemma cipher_layers: "decodeMessage (encodeMessage m k) k = TextDecoder_decode (TextEncoder_encode m)"
proof -
  define B where "B = TextEncoder_encode m"
  define K where "K = keyBytes k"
  define E where "E = map (\<lambda>(idx, byte).
      ToUint8 (js_xor (byte_number byte) (byte_number (K ! (idx mod length K))))) (enumerate 0 B)"
  have enc: "encodeMessage m k = concat (map hex_byte E)"
    by (simp add: encodeMessage_def Let_def hex_fun E_def B_def K_def)
  have len: "E = [] \<longleftrightarrow> B = []" by (cases B) (simp_all add: E_def)
  have undo: "map ToUint8 (map (\<lambda>(idx, byte). js_xor byte (byte_number (K ! (idx mod length K))))
      (enumerate 0 (map byte_number E))) = B"
    unfolding E_def by (rule xor_twice)
  show ?thesis
  proof (cases "B = []")
    case True
    then have "encodeMessage m k = []" using len by (simp add: enc)
    then show ?thesis using True by (simp add: decodeMessage_def decode_empty B_def)
  next
    case False
    then have "E \<noteq> []" using len by simp
    then have "concat (map hex_byte E) \<noteq> []" unfolding hex_empty .
    then have "encodeMessage m k \<noteq> []" unfolding enc .
    then have "decodeMessage (encodeMessage m k) k =
        TextDecoder_decode (map ToUint8 (map (\<lambda>(idx, byte). js_xor byte (byte_number (K ! (idx mod length K))))
      (enumerate 0 (map parseInt16 (match_pairs (encodeMessage m k))))))"
      unfolding K_def by (rule decodeMessage_nonempty)
    then show ?thesis by (simp only: enc hex_round_trip undo B_def)
  qed
qed

lemma unat_of_nat_bytes:
  "\<forall>b \<in> set bs. b < 256 \<Longrightarrow> map unat (map of_nat bs :: 8 word list) = bs"
  by (induction bs) (simp_all add: unat_of_nat)

lemma of_nat_unat_units: "map of_nat (map unat (m :: 16 word list)) = m"
  by (induction m) simp_all

lemma units_bound: "\<forall>u \<in> set (map unat (m :: 16 word list)). u < 0x10000"
proof
  fix u
  assume "u \<in> set (map unat m)"
  then obtain w :: "16 word" where "u = unat w" by auto
  moreover have "unat w < 2 ^ LENGTH(16)" by (rule unsigned_less)
  ultimately show "u < 0x10000" by simp
qed

lemma text_codec:
  "TextDecoder_decode (TextEncoder_encode m) =
     map of_nat (concat (map utf16_encode (strip_bom (utf16_to_scalars (map unat m)))))"
proof -
  let ?S = "utf16_to_scalars (map unat m)"
  have s: "list_all is_scalar ?S"
    using units_bound by (rule utf16_to_scalars_scalar)
  then have "\<forall>b \<in> set (concat (map utf8_encode ?S)). b < 256"
    by (auto simp: list_all_iff dest: utf8_encode_byte)
  then have "map unat (TextEncoder_encode m) = concat (map utf8_encode ?S)"
    unfolding TextEncoder_encode_def by (rule unat_of_nat_bytes)
  then show ?thesis
    using s by (simp add: TextDecoder_decode_def utf8_decode_encode_all)
qed

theorem cipher_general:
  "decodeMessage (encodeMessage m k) k =
     map of_nat (concat (map utf16_encode (strip_bom (utf16_to_scalars (map unat m)))))"
  by (simp only: cipher_layers text_codec)

theorem round_trip_well_formed:
  assumes "well_formed_utf16 (map unat m)" and "\<not> starts_with_bom m"
  shows "decodeMessage (encodeMessage m k) k = m"
proof -
  have "map unat m = [] \<or> hd (map unat m) \<noteq> 0xFEFF"
  proof (cases m)
    case Nil
    then show ?thesis by simp
  next
    case (Cons u us)
    with assms(2) have "unat u \<noteq> 0xFEFF" by (simp add: starts_with_bom_def)
    with Cons show ?thesis by simp
  qed
  then have "strip_bom (utf16_to_scalars (map unat m)) = utf16_to_scalars (map unat m)"
    by (rule strip_bom_scalars)
  moreover have "concat (map utf16_encode (utf16_to_scalars (map unat m))) = map unat m"
    using assms(1) units_bound by (rule utf16_round_trip)
  ultimately show ?thesis
    by (simp only: cipher_general of_nat_unat_units)
qed

subsection \<open>Examples\<close>

lemma ex_hi: "well_formed_utf16 (map unat [0x68, 0x69 :: 16 word])" "\<not> starts_with_bom [0x68, 0x69]"
  by (simp_all add: is_high_surrogate_def is_low_surrogate_def starts_with_bom_def)

lemma ex_pair: "well_formed_utf16 (map unat [0xD83D, 0xDE00 :: 16 word])" "\<not> starts_with_bom [0xD83D, 0xDE00]"
  by (simp_all add: is_high_surrogate_def is_low_surrogate_def starts_with_bom_def)

lemma ex_key: "keyBytes 456789 = [0x00, 0x06, 0xF8, 0x55]"
  by (simp add: keyBytes_def)

lemma ex_bom:
  "decodeMessage (encodeMessage [0xFEFF, 0x68, 0x69] 456789) 456789 = [0x68, 0x69]"
  by (simp add: cipher_general strip_bom_def utf16_bmp is_high_surrogate_def is_low_surrogate_def)

lemma ex_lone:
  "decodeMessage (encodeMessage [0xD800] 456789) 456789 = [0xFFFD]"
  by (simp add: cipher_general strip_bom_def utf16_bmp is_high_surrogate_def is_low_surrogate_def)

lemma ex_cipher_text:
  "encodeMessage [0xFEFF, 0x68, 0x69] 456789 =
     [0x65, 0x66, 0x62, 0x64, 0x34, 0x37, 0x33, 0x64, 0x36, 0x39]"
  by (simp add: encodeMessage_def TextEncoder_encode_def utf8_encode_def ex_key
      is_high_surrogate_def is_low_surrogate_def hex_fun hex_byte_def hex_digit_def xor_byte)

section \<open>The claim about the cipher\<close>

text \<open>
  C1 (amended). For every message that is well-formed UTF-16 (every surrogate code unit is
  part of a pair) and does not begin with the byte order mark U+FEFF, and for every key,
  in particular every secret in \<open>[0, 1000000)\<close>, deciphering the enciphered message with
  the same key returns the message: \<open>decodeMessage(encodeMessage(m, k), k) = m\<close>. For a
  secret in \<open>[0, 1000000)\<close> the key is encoded in exactly four bytes, most significant
  first, the first of them zero, and the bytes give back the secret.
\<close>

theorem cipher_round_trip:
  "(well_formed_utf16 (map unat m) \<and> \<not> starts_with_bom m \<longrightarrow>
      decodeMessage (encodeMessage m k) k = m) \<and>
   (0 \<le> k \<and> k < 1000000 \<longrightarrow>
      length (keyBytes k) = 4 \<and> keyBytes k ! 0 = 0 \<and>
      uint (keyBytes k ! 1) * 2 ^ 16 + uint (keyBytes k ! 2) * 2 ^ 8 + uint (keyBytes k ! 3) = k)"
proof (intro conjI impI)
  assume "well_formed_utf16 (map unat m) \<and> \<not> starts_with_bom m"
  then show "decodeMessage (encodeMessage m k) k = m" by (simp add: round_trip_well_formed)
next
  assume k: "0 \<le> k \<and> k < 1000000"
  then have k32: "0 \<le> k" "k < 2 ^ 32" by simp_all
  show "length (keyBytes k) = 4" using k32 by (rule keyBytes_big_endian)
  show z: "keyBytes k ! 0 = 0" using k by (simp add: keyBytes_zero_padded)
  show "uint (keyBytes k ! 1) * 2 ^ 16 + uint (keyBytes k ! 2) * 2 ^ 8 + uint (keyBytes k ! 3) = k"
    using keyBytes_big_endian(2) [OF k32] by (simp add: z)
qed

theorem cipher_round_trip_witness:
  "well_formed_utf16 (map unat [0x68, 0x69 :: 16 word]) \<and> \<not> starts_with_bom [0x68, 0x69] \<and>
   decodeMessage (encodeMessage [0x68, 0x69] 456789) 456789 = [0x68, 0x69] \<and>
   well_formed_utf16 (map unat [0xD83D, 0xDE00 :: 16 word]) \<and> \<not> starts_with_bom [0xD83D, 0xDE00] \<and>
   decodeMessage (encodeMessage [0xD83D, 0xDE00] 999999) 999999 = [0xD83D, 0xDE00] \<and>
   (0::int) \<le> 456789 \<and> (456789::int) < 1000000 \<and>
   length (keyBytes 456789) = 4 \<and> keyBytes 456789 ! 0 = 0 \<and>
   uint (keyBytes 456789 ! 1) * 2 ^ 16 + uint (keyBytes 456789 ! 2) * 2 ^ 8 +
     uint (keyBytes 456789 ! 3) = 456789"
proof -
  have k: "(0::int) \<le> 456789 \<and> (456789::int) < 1000000" by simp
  from cipher_round_trip [of "[0x68, 0x69]" 456789] ex_hi k
  have 1: "decodeMessage (encodeMessage [0x68, 0x69] 456789) 456789 = [0x68, 0x69] \<and>
    length (keyBytes 456789) = 4 \<and> keyBytes 456789 ! 0 = 0 \<and>
    uint (keyBytes 456789 ! 1) * 2 ^ 16 + uint (keyBytes 456789 ! 2) * 2 ^ 8 +
      uint (keyBytes 456789 ! 3) = 456789"
    by blast
  from cipher_round_trip [of "[0xD83D, 0xDE00]" 999999] ex_pair
  have 2: "decodeMessage (encodeMessage [0xD83D, 0xDE00] 999999) 999999 = [0xD83D, 0xDE00]"
    by blast
  from 1 2 ex_hi ex_pair k show ?thesis by blast
qed

text \<open>
  C1 as stated fails for two kinds of message. With the secret 456789, the message
  U+FEFF "hi" is enciphered to "efbd473d69", and deciphering gives "hi": the decoder drops
  the leading byte order mark. The message made of the lone surrogate U+D800 comes back as
  U+FFFD: the encoder replaces a surrogate that is not part of a pair.
\<close>

theorem cipher_round_trip_counterexample:
  "(0::int) \<le> 456789 \<and> (456789::int) < 1000000 \<and>
   encodeMessage [0xFEFF, 0x68, 0x69] 456789 =
     [0x65, 0x66, 0x62, 0x64, 0x34, 0x37, 0x33, 0x64, 0x36, 0x39] \<and>
   decodeMessage (encodeMessage [0xFEFF, 0x68, 0x69] 456789) 456789 = [0x68, 0x69] \<and>
   decodeMessage (encodeMessage [0xFEFF, 0x68, 0x69] 456789) 456789 \<noteq> [0xFEFF, 0x68, 0x69] \<and>
   decodeMessage (encodeMessage [0xD800] 456789) 456789 = [0xFFFD] \<and>
   decodeMessage (encodeMessage [0xD800] 456789) 456789 \<noteq> [0xD800]"
proof -
  have 1: "decodeMessage (encodeMessage [0xFEFF, 0x68, 0x69] 456789) 456789 \<noteq>
      [0xFEFF, 0x68, 0x69]"
    unfolding ex_bom by simp
  have 2: "decodeMessage (encodeMessage [0xD800] 456789) 456789 \<noteq> [0xD800]"
    unfolding ex_lone by simp
  have k: "(0::int) \<le> 456789 \<and> (456789::int) < 1000000" by simp
  from k ex_cipher_text ex_bom 1 ex_lone 2 show ?thesis by blast
qed

end
